theory Spec2Isabelle
  imports Main "HOL-Library.Sublist" "HOL-Library.AList" "HOL-Library.Word"
begin

section \<open>Renovation transcript extractor: the pipeline of app.py\<close>

text \<open>
  The program reads an uploaded transcript, normalises its whitespace, asks a completion
  service for ten fields as JSON, decodes the answer and writes a two-row workbook.
  Python strings are modelled as \<^typ>\<open>string\<close>: lists of characters with code points
  0 to 255. Library calls whose result the program cannot determine (the completion
  service, the document parsers, the JSON decoder) are parameters of the functions that
  call them; an exception is a value \<open>Inl e\<close> of a sum type.
\<close>

subsection \<open>Exceptions\<close>

datatype py_error =
    ValueError string
  | TypeError string
  | AttributeError string
  | JSONDecodeError
  | IllegalCharacterError
  | LibraryError string
  | Unmodelled string

text \<open>
  \<open>JSONDecodeError\<close> is a subclass of \<open>ValueError\<close>; the program catches only the subclass,
  so the two are kept apart. \<open>IllegalCharacterError\<close> is the exception of openpyxl.
  \<open>LibraryError\<close> stands for any other exception a library
  raises (an unreadable document, a failed request). \<open>Unmodelled\<close> is not a Python
  exception: the executable decoder below returns it on the inputs it does not cover.
\<close>

subsection \<open>String methods\<close>

text \<open>
  \<open>str.isspace\<close>, \<open>str.strip\<close> and the class \<open>\s\<close> of \<open>re\<close> share one set of
  whitespace characters; below code point 256 these are 9 to 13, 28 to 32, 133 and 160.
\<close>

definition isspace :: "char \<Rightarrow> bool" where
  "isspace c =
     (let n = (of_char c :: nat)
      in (9 \<le> n \<and> n \<le> 13) \<or> (28 \<le> n \<and> n \<le> 32) \<or> n = 133 \<or> n = 160)"

definition strip :: "string \<Rightarrow> string" where
  "strip s = rev (dropWhile isspace (rev (dropWhile isspace s)))"

text \<open>
  \<open>str.lower\<close>: below code point 256 the upper-case characters are A to Z and 192 to 222
  except 215; each maps to the character 32 above it.
\<close>

definition lower_char :: "char \<Rightarrow> char" where
  "lower_char c =
     (let n = (of_char c :: nat)
      in if (65 \<le> n \<and> n \<le> 90) \<or> (192 \<le> n \<and> n \<le> 222 \<and> n \<noteq> 215)
         then char_of (n + 32) else c)"

definition lower :: "string \<Rightarrow> string" where
  "lower s = map lower_char s"

text \<open>\<open>sep.join(xs)\<close> on a list of strings.\<close>

fun join :: "string \<Rightarrow> string list \<Rightarrow> string" where
  "join sep [] = []"
| "join sep [x] = x"
| "join sep (x # y # ys) = x @ sep @ join sep (y # ys)"

subsection \<open>Text extractor\<close>

text \<open>
  The uploaded file is a byte sequence. The two document parsers are libraries:
  \<open>docx_Document\<close> gives the paragraph texts of a DOCX file, \<open>PdfReader\<close> gives for each
  page of a PDF file what \<open>page.extract_text()\<close> returns (a text, \<open>None\<close>, or an
  exception); either may raise on the whole file. The extension string is the one
  \<open>os.path.splitext\<close> produces, with its leading dot.
\<close>

type_synonym bytes = "8 word list"

definition extract_text_from_docx ::
    "(bytes \<Rightarrow> py_error + string list) \<Rightarrow> bytes \<Rightarrow> py_error + string" where
  "extract_text_from_docx docx_Document file_bytes =
     (case docx_Document file_bytes of
        Inl e \<Rightarrow> Inl e
      | Inr paragraphs \<Rightarrow> Inr (join ''\<newline>'' paragraphs))"

fun pdf_pages_loop :: "string \<Rightarrow> (py_error + string option) list \<Rightarrow> py_error + string" where
  "pdf_pages_loop text [] = Inr text"
| "pdf_pages_loop text (page # pages) =
     (case page of
        Inl e \<Rightarrow> Inl e
      | Inr extracted \<Rightarrow>
          (let page_text = (case extracted of None \<Rightarrow> [] | Some t \<Rightarrow> t)
           in pdf_pages_loop (text @ page_text @ ''\<newline>'') pages))"

definition extract_text_from_pdf ::
    "(bytes \<Rightarrow> py_error + (py_error + string option) list) \<Rightarrow> bytes \<Rightarrow> py_error + string" where
  "extract_text_from_pdf PdfReader file_bytes =
     (case PdfReader file_bytes of
        Inl e \<Rightarrow> Inl e
      | Inr pages \<Rightarrow> pdf_pages_loop [] pages)"

definition extract_text ::
    "(bytes \<Rightarrow> py_error + string list) \<Rightarrow> (bytes \<Rightarrow> py_error + (py_error + string option) list)
     \<Rightarrow> bytes \<Rightarrow> string \<Rightarrow> py_error + string" where
  "extract_text docx_Document PdfReader file_bytes file_extension =
     (let file_extension = lower file_extension
      in if file_extension = ''.docx'' then extract_text_from_docx docx_Document file_bytes
         else if file_extension = ''.pdf'' then extract_text_from_pdf PdfReader file_bytes
         else Inl (ValueError (''Unsupported file format: '' @ file_extension)))"

subsection \<open>Text normalizer\<close>

text \<open>
  \<^verbatim>\<open>re.sub(r"\s+", " ", text)\<close>: scanning from the left, every maximal run of
  whitespace is replaced by one space. \<open>clean_text\<close> then strips both ends.
\<close>

function re_sub_ws :: "string \<Rightarrow> string" where
  "re_sub_ws [] = []"
| "re_sub_ws (c # cs) =
     (if isspace c then CHR '' '' # re_sub_ws (dropWhile isspace cs)
      else c # re_sub_ws cs)"
  by pat_completeness auto
termination
  by (relation "measure length") (auto simp: less_Suc_eq_le length_dropWhile_le)

definition clean_text :: "string \<Rightarrow> string" where
  "clean_text text = strip (re_sub_ws text)"

subsection \<open>Prompt builder\<close>

text \<open>
  The fixed ten field names, in the order of the workbook's header row, and the
  f-string of \<open>build_prompt\<close>: the text before and after the transcript.
\<close>

definition headers :: "string list" where
  "headers =
     [''ProjectName'', ''ClientName'', ''PropertyAddress'', ''ProjectManager'',
      ''RenovationAreas'', ''ScopeOfWork'', ''MaterialPreferences'',
      ''BudgetOrCost'', ''Timeline'', ''AdditionalNotes'']"

definition prompt_head :: string where
  \<open>prompt_head =
     ''\<newline>'' @
     ''You are an AI assistant extracting renovation details from a client transcript.\<newline>'' @
     ''Please carefully analyze the conversation and return a JSON object with these keys:\<newline>'' @
     ''\<newline>'' @
     ''1. "ProjectName": (If not mentioned, return "Not provided")\<newline>'' @
     ''2. "ClientName": (If not mentioned, return "Not provided")\<newline>'' @
     ''3. "PropertyAddress": (If not mentioned, return "Not provided")\<newline>'' @
     ''4. "ProjectManager": (If not mentioned, return "Not provided")\<newline>'' @
     ''5. "RenovationAreas": (List or describe the rooms/areas, e.g., "Kitchen, Bathroom")\<newline>'' @
     ''6. "ScopeOfWork": (Summarize all renovation tasks or goals)\<newline>'' @
     ''7. "MaterialPreferences": (List any specific materials or design preferences)\<newline>'' @
     ''8. "BudgetOrCost": (Any budget or cost references)\<newline>'' @
     ''9. "Timeline": (Any schedule or start/end dates mentioned)\<newline>'' @
     ''10. "AdditionalNotes": (Extra details like permit requirements, constraints, etc.)\<newline>'' @
     ''\<newline>'' @
     ''Transcript:\<newline>''\<close>

definition prompt_tail :: string where
  \<open>prompt_tail =
     ''\<newline>'' @
     ''\<newline>'' @
     ''Return only valid JSON with exactly the keys:\<newline>'' @
     ''ProjectName, ClientName, PropertyAddress, ProjectManager, RenovationAreas, ScopeOfWork, MaterialPreferences, BudgetOrCost, Timeline, AdditionalNotes.\<newline>'' @
     ''    ''\<close>

definition build_prompt :: "string \<Rightarrow> string" where
  "build_prompt transcript_text = prompt_head @ transcript_text @ prompt_tail"

subsection \<open>Python values\<close>

text \<open>
  The values the JSON decoder can return. A float is carried by its printed form
  (\<open>str\<close> and \<open>repr\<close> of a float coincide), since the program never computes with one.
  A \<open>dict\<close> is an association list in insertion order, read with \<open>map_of\<close>; the keys of
  a decoded JSON object are strings.
\<close>

datatype pyval =
    PyNone
  | PyBool bool
  | PyInt int
  | PyFloat string
  | PyStr string
  | PyList "pyval list"
  | PyDict "(string \<times> pyval) list"

fun type_name :: "pyval \<Rightarrow> string" where
  "type_name PyNone = ''NoneType''"
| "type_name (PyBool b) = ''bool''"
| "type_name (PyInt i) = ''int''"
| "type_name (PyFloat r) = ''float''"
| "type_name (PyStr s) = ''str''"
| "type_name (PyList xs) = ''list''"
| "type_name (PyDict d) = ''dict''"

text \<open>Decimal digits of a number, as \<open>str\<close> prints an \<open>int\<close>.\<close>

function str_of_nat :: "nat \<Rightarrow> string" where
  "str_of_nat n =
     (if n < 10 then [char_of (48 + n)]
      else str_of_nat (n div 10) @ [char_of (48 + n mod 10)])"
  by pat_completeness auto
termination
  by (relation "measure id") auto

declare str_of_nat.simps [simp del]

definition str_of_int :: "int \<Rightarrow> string" where
  "str_of_int i = (if i < 0 then CHR ''-'' # str_of_nat (nat (- i)) else str_of_nat (nat i))"

text \<open>
  \<open>repr\<close> of a string: quoted with the apostrophe, or with the double quote when the
  string holds an apostrophe and no double quote; the quote and the backslash are
  escaped, tab, newline and carriage return are written \<^verbatim>\<open>\t \n \r\<close>, and every other
  non-printable character as \<^verbatim>\<open>\xhh\<close>.
\<close>

definition hex_digit :: "nat \<Rightarrow> char" where
  "hex_digit n = (if n < 10 then char_of (48 + n) else char_of (87 + n))"

definition hex_escape :: "char \<Rightarrow> string" where
  "hex_escape c =
     (let n = (of_char c :: nat)
      in [CHR 0x5C, CHR ''x'', hex_digit (n div 16), hex_digit (n mod 16)])"

definition isprintable :: "char \<Rightarrow> bool" where
  "isprintable c =
     (let n = (of_char c :: nat)
      in (32 \<le> n \<and> n \<le> 126) \<or> (161 \<le> n \<and> n \<noteq> 173))"

definition repr_char :: "char \<Rightarrow> char \<Rightarrow> string" where
  "repr_char quote c =
     (if c = quote \<or> c = CHR 0x5C then [CHR 0x5C, c]
      else if c = CHR 0x09 then [CHR 0x5C, CHR ''t'']
      else if c = CHR 0x0A then [CHR 0x5C, CHR ''n'']
      else if c = CHR 0x0D then [CHR 0x5C, CHR ''r'']
      else if isprintable c then [c]
      else hex_escape c)"

definition repr_str :: "string \<Rightarrow> string" where
  "repr_str s =
     (let quote = (if CHR 0x27 \<in> set s \<and> CHR 0x22 \<notin> set s then CHR 0x22 else CHR 0x27)
      in quote # concat (map (repr_char quote) s) @ [quote])"

text \<open>\<open>repr\<close> and \<open>str\<close> of a value.\<close>

fun py_repr :: "pyval \<Rightarrow> string" where
  "py_repr PyNone = ''None''"
| "py_repr (PyBool b) = (if b then ''True'' else ''False'')"
| "py_repr (PyInt i) = str_of_int i"
| "py_repr (PyFloat r) = r"
| "py_repr (PyStr s) = repr_str s"
| "py_repr (PyList xs) = ''['' @ join '', '' (map py_repr xs) @ '']''"
| "py_repr (PyDict d) =
     ''{'' @ join '', '' (map (\<lambda>(k, v). repr_str k @ '': '' @ py_repr v) d) @ ''}''"

fun py_str :: "pyval \<Rightarrow> string" where
  "py_str (PyStr s) = s"
| "py_str v = py_repr v"

subsection \<open>An executable JSON decoder\<close>

text \<open>
  \<open>json.loads\<close> is a library function, and the extraction client below takes it as a
  parameter. \<open>json_loads\<close> is an executable instance for the examples, written after the
  decoder of the \<open>json\<close> module (\<open>scanstring\<close>, \<open>JSONObject\<close>, \<open>JSONArray\<close>, \<open>scan_once\<close>,
  \<open>decode\<close>): whitespace is space, tab, newline and carriage return; strings are strict
  (no raw control character); later duplicate keys overwrite earlier ones; \<open>NaN\<close>,
  \<open>Infinity\<close> and \<open>-Infinity\<close> are accepted. It returns \<open>Unmodelled\<close> on a float
  literal and on a \<^verbatim>\<open>\u\<close> escape above U+00FF. The recursion is bounded by a fuel of
  one more than twice the length of the text, which is never used up
  (\<open>json_loads_fuel\<close> below).
\<close>

definition json_ws :: "char \<Rightarrow> bool" where
  "json_ws c = (c = CHR '' '' \<or> c = CHR 0x09 \<or> c = CHR 0x0A \<or> c = CHR 0x0D)"

definition skip_ws :: "string \<Rightarrow> string" where
  "skip_ws s = dropWhile json_ws s"

definition is_digit :: "char \<Rightarrow> bool" where
  "is_digit c = (48 \<le> (of_char c :: nat) \<and> (of_char c :: nat) \<le> 57)"

definition hex_val :: "char \<Rightarrow> nat option" where
  "hex_val c =
     (let n = (of_char c :: nat)
      in if 48 \<le> n \<and> n \<le> 57 then Some (n - 48)
         else if 97 \<le> n \<and> n \<le> 102 then Some (n - 87)
         else if 65 \<le> n \<and> n \<le> 70 then Some (n - 55)
         else None)"

definition decode_uXXXX :: "char \<Rightarrow> char \<Rightarrow> char \<Rightarrow> char \<Rightarrow> nat option" where
  "decode_uXXXX a b c d =
     (case (hex_val a, hex_val b, hex_val c, hex_val d) of
        (Some w, Some x, Some y, Some z) \<Rightarrow> Some (((w * 16 + x) * 16 + y) * 16 + z)
      | _ \<Rightarrow> None)"

definition unescape :: "char \<Rightarrow> char option" where
  "unescape e =
     (if e = CHR 0x22 then Some (CHR 0x22)
      else if e = CHR 0x5C then Some (CHR 0x5C)
      else if e = CHR ''/'' then Some (CHR ''/'')
      else if e = CHR ''b'' then Some (CHR 0x08)
      else if e = CHR ''f'' then Some (CHR 0x0C)
      else if e = CHR ''n'' then Some (CHR 0x0A)
      else if e = CHR ''r'' then Some (CHR 0x0D)
      else if e = CHR ''t'' then Some (CHR 0x09)
      else None)"

definition cons_char :: "char \<Rightarrow> py_error + string \<times> string \<Rightarrow> py_error + string \<times> string" where
  "cons_char c r = (case r of Inl e \<Rightarrow> Inl e | Inr (s, rest) \<Rightarrow> Inr (c # s, rest))"

fun scanstring :: "string \<Rightarrow> py_error + string \<times> string" where
  "scanstring [] = Inl JSONDecodeError"
| "scanstring (c # cs) =
     (if c = CHR 0x22 then Inr ([], cs)
      else if c = CHR 0x5C then
        (case cs of
           [] \<Rightarrow> Inl JSONDecodeError
         | e # cs1 \<Rightarrow>
             if e = CHR ''u'' then
               (case cs1 of
                  h1 # h2 # h3 # h4 # cs2 \<Rightarrow>
                    (case decode_uXXXX h1 h2 h3 h4 of
                       None \<Rightarrow> Inl JSONDecodeError
                     | Some n \<Rightarrow>
                         if n < 256 then cons_char (char_of n) (scanstring cs2)
                         else Inl (Unmodelled ''escape above U+00FF''))
                | _ \<Rightarrow> Inl JSONDecodeError)
             else
               (case unescape e of
                  None \<Rightarrow> Inl JSONDecodeError
                | Some ch \<Rightarrow> cons_char ch (scanstring cs1)))
      else if (of_char c :: nat) < 32 then Inl JSONDecodeError
      else cons_char c (scanstring cs))"

definition int_of_digits :: "string \<Rightarrow> int" where
  "int_of_digits ds = foldl (\<lambda>acc d. acc * 10 + (int (of_char d) - 48)) 0 ds"

text \<open>
  The number pattern \<^verbatim>\<open>(-?(?:0|[1-9][0-9]*))(\.[0-9]+)?([eE][-+]?[0-9]+)?\<close>: its groups
  integer, frac and exp, each with the text after it. A match with a frac or an exp is a
  float literal, whose printed form this decoder does not compute.
\<close>

definition match_int :: "string \<Rightarrow> (string \<times> string) option" where
  "match_int s =
     (let (sign, s1) = (case s of c # cs \<Rightarrow> if c = CHR ''-'' then (''-'', cs) else ('''', s)
                        | [] \<Rightarrow> ('''', s))
      in case s1 of
           [] \<Rightarrow> None
         | c # cs \<Rightarrow>
             if c = CHR ''0'' then Some (sign @ ''0'', cs)
             else if is_digit c then
               Some (sign @ takeWhile is_digit s1, dropWhile is_digit s1)
             else None)"

definition match_frac :: "string \<Rightarrow> string \<times> string" where
  "match_frac s =
     (case s of
        c # d # cs \<Rightarrow>
          if c = CHR ''.'' \<and> is_digit d
          then (c # takeWhile is_digit (d # cs), dropWhile is_digit (d # cs))
          else ('''', s)
      | _ \<Rightarrow> ('''', s))"

definition match_exp :: "string \<Rightarrow> string \<times> string" where
  "match_exp s =
     (case s of
        [] \<Rightarrow> ('''', s)
      | c # cs \<Rightarrow>
          if c = CHR ''e'' \<or> c = CHR ''E'' then
            (let (sign, cs1) =
                   (case cs of
                      d # ds \<Rightarrow> if d = CHR ''+'' \<or> d = CHR ''-'' then ([d], ds) else ('''', cs)
                    | [] \<Rightarrow> ('''', cs))
             in case cs1 of
                  d # ds \<Rightarrow>
                    if is_digit d
                    then (c # sign @ takeWhile is_digit cs1, dropWhile is_digit cs1)
                    else ('''', s)
                | [] \<Rightarrow> ('''', s))
          else ('''', s))"

definition match_number :: "string \<Rightarrow> (py_error + pyval \<times> string) option" where
  "match_number s =
     (case match_int s of
        None \<Rightarrow> None
      | Some (integer, r1) \<Rightarrow>
          (let (frac, r2) = match_frac r1;
               (exp, r3) = match_exp r2
           in if frac \<noteq> [] \<or> exp \<noteq> []
              then Some (Inl (Unmodelled ''float literal''))
              else Some (Inr (PyInt (case integer of
                                       c # ds \<Rightarrow> if c = CHR ''-'' then - int_of_digits ds
                                                 else int_of_digits integer
                                     | [] \<Rightarrow> 0), r3))))"

definition match_literal :: "string \<Rightarrow> string \<Rightarrow> string option" where
  "match_literal lit s =
     (if take (length lit) s = lit then Some (drop (length lit) s) else None)"

text \<open>
  The branches of \<open>scan_once\<close> that read no container: the three literals, a number,
  and the three constants, in the order in which they are tried.
\<close>

definition scan_atom :: "string \<Rightarrow> py_error + pyval \<times> string" where
  "scan_atom s =
     (case match_literal ''null'' s of
        Some rest \<Rightarrow> Inr (PyNone, rest)
      | None \<Rightarrow>
     (case match_literal ''true'' s of
        Some rest \<Rightarrow> Inr (PyBool True, rest)
      | None \<Rightarrow>
     (case match_literal ''false'' s of
        Some rest \<Rightarrow> Inr (PyBool False, rest)
      | None \<Rightarrow>
     (case match_number s of
        Some r \<Rightarrow> r
      | None \<Rightarrow>
     (case match_literal ''NaN'' s of
        Some rest \<Rightarrow> Inr (PyFloat ''nan'', rest)
      | None \<Rightarrow>
     (case match_literal ''Infinity'' s of
        Some rest \<Rightarrow> Inr (PyFloat ''inf'', rest)
      | None \<Rightarrow>
     (case match_literal ''-Infinity'' s of
        Some rest \<Rightarrow> Inr (PyFloat ''-inf'', rest)
      | None \<Rightarrow> Inl JSONDecodeError)))))))"

fun scan_once :: "nat \<Rightarrow> string \<Rightarrow> py_error + pyval \<times> string"
  and JSONObject :: "nat \<Rightarrow> (string \<times> pyval) list \<Rightarrow> string
                      \<Rightarrow> py_error + pyval \<times> string"
  and JSONArray :: "nat \<Rightarrow> pyval list \<Rightarrow> string
                     \<Rightarrow> py_error + pyval \<times> string"
where
  "scan_once 0 s = Inl (Unmodelled ''fuel'')"
| "scan_once (Suc n) s =
     (case s of
        [] \<Rightarrow> Inl JSONDecodeError
      | c # cs \<Rightarrow>
          if c = CHR 0x22 then
            (case scanstring cs of Inl e \<Rightarrow> Inl e | Inr (str, rest) \<Rightarrow> Inr (PyStr str, rest))
          else if c = CHR ''{'' then
            (case skip_ws cs of
               [] \<Rightarrow> Inl JSONDecodeError
             | d # rest \<Rightarrow>
                 if d = CHR ''}'' then Inr (PyDict [], rest)
                 else if d = CHR 0x22 then JSONObject n [] rest
                 else Inl JSONDecodeError)
          else if c = CHR ''['' then
            (case skip_ws cs of
               [] \<Rightarrow> Inl JSONDecodeError
             | d # rest \<Rightarrow>
                 if d = CHR '']'' then Inr (PyList [], rest)
                 else JSONArray n [] (d # rest))
          else
            scan_atom s)"
| "JSONObject 0 pairs s = Inl (Unmodelled ''fuel'')"
| "JSONObject (Suc n) pairs s =
     (case scanstring s of
        Inl e \<Rightarrow> Inl e
      | Inr (key, r1) \<Rightarrow>
          (case skip_ws r1 of
             [] \<Rightarrow> Inl JSONDecodeError
           | c # r2 \<Rightarrow>
               if c \<noteq> CHR '':'' then Inl JSONDecodeError
               else
                 (case scan_once n (skip_ws r2) of
                    Inl e \<Rightarrow> Inl e
                  | Inr (v, r3) \<Rightarrow>
                      (let pairs = AList.update key v pairs
                       in case skip_ws r3 of
                            [] \<Rightarrow> Inl JSONDecodeError
                          | d # r4 \<Rightarrow>
                              if d = CHR ''}'' then Inr (PyDict pairs, r4)
                              else if d \<noteq> CHR '','' then Inl JSONDecodeError
                              else
                                (case skip_ws r4 of
                                   [] \<Rightarrow> Inl JSONDecodeError
                                 | q # r5 \<Rightarrow>
                                     if q = CHR 0x22 then JSONObject n pairs r5
                                     else Inl JSONDecodeError)))))"
| "JSONArray 0 vals s = Inl (Unmodelled ''fuel'')"
| "JSONArray (Suc n) vals s =
     (case scan_once n s of
        Inl e \<Rightarrow> Inl e
      | Inr (v, r1) \<Rightarrow>
          (let vals = vals @ [v]
           in case skip_ws r1 of
                [] \<Rightarrow> Inl JSONDecodeError
              | d # r2 \<Rightarrow>
                  if d = CHR '']'' then Inr (PyList vals, r2)
                  else if d \<noteq> CHR '','' then Inl JSONDecodeError
                  else JSONArray n vals (skip_ws r2)))"

definition json_loads :: "string \<Rightarrow> py_error + pyval" where
  "json_loads s =
     (case scan_once (Suc (2 * length s)) (skip_ws s) of
        Inl e \<Rightarrow> Inl e
      | Inr (obj, rest) \<Rightarrow> if skip_ws rest = [] then Inr obj else Inl JSONDecodeError)"

subsection \<open>Extraction client\<close>

text \<open>
  \<open>create\<close> is the completion service: it maps the request to the content of the first
  choice's message, or raises. \<open>loads\<close> is the JSON decoder. The two \<open>st\<close> calls of the
  fallback branch are returned beside the record.
\<close>

record chat_request =
  model :: string
  messages :: "(string \<times> string) list"
  temperature :: string

definition GPT_MODEL :: string where
  "GPT_MODEL = ''gpt-4''"

datatype st_call = st_error string | st_write "string list"

definition fallback_details :: pyval where
  "fallback_details =
     PyDict
       [(''ProjectName'', PyStr ''Not provided''),
        (''ClientName'', PyStr ''Not provided''),
        (''PropertyAddress'', PyStr ''Not provided''),
        (''ProjectManager'', PyStr ''Not provided''),
        (''RenovationAreas'', PyStr ''Not provided''),
        (''ScopeOfWork'', PyStr ''Not provided''),
        (''MaterialPreferences'', PyStr ''Not provided''),
        (''BudgetOrCost'', PyStr ''Not provided''),
        (''Timeline'', PyStr ''Not provided''),
        (''AdditionalNotes'', PyStr ''Not provided'')]"

definition completion_request :: "string \<Rightarrow> chat_request" where
  "completion_request prompt =
     \<lparr>model = GPT_MODEL, messages = [(''user'', prompt)], temperature = ''0.2''\<rparr>"

definition extract_details_with_gpt ::
    "(chat_request \<Rightarrow> py_error + string) \<Rightarrow> (string \<Rightarrow> py_error + pyval) \<Rightarrow> string
     \<Rightarrow> py_error + pyval \<times> st_call list" where
  "extract_details_with_gpt create loads transcript_text =
     (let prompt = build_prompt transcript_text
      in case create (completion_request prompt) of
           Inl e \<Rightarrow> Inl e
         | Inr content \<Rightarrow>
             (let gpt_output = strip content
              in case loads gpt_output of
                   Inr details \<Rightarrow> Inr (details, [])
                 | Inl e \<Rightarrow>
                     (case e of
                        JSONDecodeError \<Rightarrow>
                          Inr (fallback_details,
                               [st_error ''Error parsing GPT JSON output. Returning fallback data.'',
                                st_write [''Raw GPT output was:'', gpt_output]])
                      | _ \<Rightarrow> Inl e)))"

text \<open>A completion service that answers every request with one fixed content.\<close>

definition reply :: "string \<Rightarrow> chat_request \<Rightarrow> py_error + string" where
  "reply content request = Inr content"

subsection \<open>Spreadsheet renderer\<close>

text \<open>
  The workbook as the program leaves it when it calls \<open>wb.save\<close>; the byte
  serialisation is the library's. A cell holds its value and the styles the program
  assigned; a sheet maps (row, column) to cells.
\<close>

record font =
  bold :: bool
  color :: string

record pattern_fill =
  fill_type :: string
  fgColor :: string

record border =
  border_left :: string
  border_right :: string
  border_top :: string
  border_bottom :: string

record alignment =
  horizontal :: "string option"
  vertical :: "string option"
  wrap_text :: "bool option"

record cell =
  cell_value :: string
  cell_font :: "font option"
  cell_fill :: "pattern_fill option"
  cell_alignment :: "alignment option"
  cell_border :: "border option"

record worksheet =
  title :: string
  cells :: "nat \<times> nat \<rightharpoonup> cell"
  column_width :: "string \<rightharpoonup> nat"
  row_height :: "nat \<rightharpoonup> nat"
  freeze_panes :: "string option"

record workbook =
  sheets :: "worksheet list"
  active :: nat

definition Workbook :: workbook where
  "Workbook =
     \<lparr>sheets = [\<lparr>title = ''Sheet'', cells = Map.empty, column_width = Map.empty,
                  row_height = Map.empty, freeze_panes = None\<rparr>],
      active = 0\<rparr>"

text \<open>
  \<open>ws.cell(row, column, value)\<close> with a string value: openpyxl keeps at most 32767
  characters of it and raises \<open>IllegalCharacterError\<close> when one of them is a control
  character other than tab, newline and carriage return (code points 0 to 8, 11, 12 and
  14 to 31). The cell is created with no style of its own.
\<close>

definition illegal_character :: "char \<Rightarrow> bool" where
  "illegal_character c =
     (let n = (of_char c :: nat)
      in n \<le> 8 \<or> n = 11 \<or> n = 12 \<or> (14 \<le> n \<and> n \<le> 31))"

definition check_string :: "string \<Rightarrow> py_error + string" where
  "check_string v =
     (let v = take 32767 v
      in if list_ex illegal_character v then Inl IllegalCharacterError else Inr v)"

definition new_cell :: "string \<Rightarrow> cell" where
  "new_cell v =
     \<lparr>cell_value = v, cell_font = None, cell_fill = None, cell_alignment = None,
      cell_border = None\<rparr>"

text \<open>
  \<open>get_column_letter\<close> of openpyxl: the letters of columns 1 to 18278, \<open>ValueError\<close>
  outside that range.
\<close>

function col_letters :: "nat \<Rightarrow> string" where
  "col_letters n =
     (if n = 0 then [] else col_letters ((n - 1) div 26) @ [char_of (65 + (n - 1) mod 26)])"
  by pat_completeness auto
termination
  by (relation "measure id") auto

declare col_letters.simps [simp del]

definition get_column_letter :: "nat \<Rightarrow> py_error + string" where
  "get_column_letter col_idx =
     (if 1 \<le> col_idx \<and> col_idx \<le> 18278 then Inr (col_letters col_idx)
      else Inl (ValueError (''Invalid column index '' @ str_of_nat col_idx)))"

definition header_font :: font where
  "header_font = \<lparr>bold = True, color = ''FFFFFF''\<rparr>"

definition header_fill :: pattern_fill where
  "header_fill = \<lparr>fill_type = ''solid'', fgColor = ''4F81BD''\<rparr>"

definition thin_border :: border where
  "thin_border =
     \<lparr>border_left = ''thin'', border_right = ''thin'', border_top = ''thin'',
      border_bottom = ''thin''\<rparr>"

definition center_alignment :: alignment where
  "center_alignment =
     \<lparr>horizontal = Some ''center'', vertical = Some ''center'', wrap_text = None\<rparr>"

definition wrap_alignment :: alignment where
  "wrap_alignment = \<lparr>horizontal = None, vertical = Some ''top'', wrap_text = Some True\<rparr>"

fun header_loop :: "worksheet \<Rightarrow> (nat \<times> string) list \<Rightarrow> py_error + worksheet" where
  "header_loop ws [] = Inr ws"
| "header_loop ws ((col_idx, header) # rest) =
     (case check_string header of
        Inl e \<Rightarrow> Inl e
      | Inr v \<Rightarrow>
          (let c = new_cell v;
               c = c\<lparr>cell_font := Some header_font\<rparr>;
               c = c\<lparr>cell_fill := Some header_fill\<rparr>;
               c = c\<lparr>cell_alignment := Some center_alignment\<rparr>;
               c = c\<lparr>cell_border := Some thin_border\<rparr>;
               ws = ws\<lparr>cells := (cells ws)((1, col_idx) \<mapsto> c)\<rparr>
           in case get_column_letter col_idx of
                Inl e \<Rightarrow> Inl e
              | Inr letter \<Rightarrow>
                  header_loop (ws\<lparr>column_width := (column_width ws)(letter \<mapsto> 25)\<rparr>) rest))"

text \<open>
  \<open>details.get(header, "Not provided")\<close>: only a \<open>dict\<close> has the method. Then
  \<open>", ".join(val)\<close>, which raises \<open>TypeError\<close> at the first item that is not a string.
\<close>

definition details_get :: "pyval \<Rightarrow> string \<Rightarrow> pyval \<Rightarrow> py_error + pyval" where
  "details_get details key dflt =
     (case details of
        PyDict d \<Rightarrow> Inr (case map_of d key of None \<Rightarrow> dflt | Some v \<Rightarrow> v)
      | _ \<Rightarrow>
          Inl (AttributeError
                ([CHR 0x27] @ type_name details @ [CHR 0x27] @ '' object has no attribute ''
                 @ [CHR 0x27] @ ''get'' @ [CHR 0x27])))"

fun str_items :: "nat \<Rightarrow> pyval list \<Rightarrow> py_error + string list" where
  "str_items i [] = Inr []"
| "str_items i (v # vs) =
     (case v of
        PyStr s \<Rightarrow> (case str_items (Suc i) vs of Inl e \<Rightarrow> Inl e | Inr ss \<Rightarrow> Inr (s # ss))
      | _ \<Rightarrow>
          Inl (TypeError
                (''sequence item '' @ str_of_nat i @ '': expected str instance, ''
                 @ type_name v @ '' found'')))"

definition join_values :: "string \<Rightarrow> pyval list \<Rightarrow> py_error + string" where
  "join_values sep vals =
     (case str_items 0 vals of Inl e \<Rightarrow> Inl e | Inr ss \<Rightarrow> Inr (join sep ss))"

fun value_loop :: "pyval \<Rightarrow> worksheet \<Rightarrow> (nat \<times> string) list \<Rightarrow> py_error + worksheet" where
  "value_loop details ws [] = Inr ws"
| "value_loop details ws ((col_idx, header) # rest) =
     (case details_get details header (PyStr ''Not provided'') of
        Inl e \<Rightarrow> Inl e
      | Inr val \<Rightarrow>
          (case (case val of
                   PyList items \<Rightarrow>
                     (case join_values '', '' items of
                        Inl e \<Rightarrow> Inl e
                      | Inr joined \<Rightarrow> Inr (PyStr joined))
                 | _ \<Rightarrow> Inr val) of
             Inl e \<Rightarrow> Inl e
           | Inr val \<Rightarrow>
               (case check_string (py_str val) of
                  Inl e \<Rightarrow> Inl e
                | Inr v \<Rightarrow>
                    (let c = new_cell v;
                         c = c\<lparr>cell_alignment := Some wrap_alignment\<rparr>;
                         c = c\<lparr>cell_border := Some thin_border\<rparr>
                     in value_loop details
                          (ws\<lparr>cells := (cells ws)((2, col_idx) \<mapsto> c)\<rparr>) rest))))"

definition create_pretty_excel :: "pyval \<Rightarrow> py_error + workbook" where
  "create_pretty_excel details =
     (let wb = Workbook;
          ws = sheets wb ! active wb;
          ws = ws\<lparr>title := ''Renovation Data''\<rparr>
      in case header_loop ws (enumerate 1 headers) of
           Inl e \<Rightarrow> Inl e
         | Inr ws \<Rightarrow>
             (case value_loop details ws (enumerate 1 headers) of
                Inl e \<Rightarrow> Inl e
              | Inr ws \<Rightarrow>
                  (let ws = ws\<lparr>freeze_panes := Some ''A2''\<rparr>;
                       ws = ws\<lparr>row_height := (row_height ws)(1 \<mapsto> 25)\<rparr>
                   in Inr (wb\<lparr>sheets := (sheets wb)[active wb := ws]\<rparr>))))"

subsection \<open>Auxiliary predicates of the proofs\<close>

text \<open>
  \<open>no_double_ws s\<close>: no two neighbouring characters of \<open>s\<close> are both whitespace.
  \<open>ws_normal s\<close>: moreover the only whitespace character of \<open>s\<close> is the space.
\<close>

fun no_double_ws :: "string \<Rightarrow> bool" where
  "no_double_ws (a # b # cs) = (\<not> (isspace a \<and> isspace b) \<and> no_double_ws (b # cs))"
| "no_double_ws _ = True"

definition ws_normal :: "string \<Rightarrow> bool" where
  "ws_normal s = (list_all (\<lambda>c. \<not> isspace c \<or> c = CHR '' '') s \<and> no_double_ws s)"

text \<open>
  \<open>same_letter a b\<close>: the characters are equal or the two cases of one ASCII letter;
  \<open>any_case_of pat s\<close>: \<open>s\<close> is \<open>pat\<close> up to the case of its ASCII letters.
\<close>

definition same_letter :: "char \<Rightarrow> char \<Rightarrow> bool" where
  "same_letter a b =
     (let m = (of_char a :: nat); n = (of_char b :: nat)
      in a = b \<or> (65 \<le> m \<and> m \<le> 90 \<and> n = m + 32) \<or> (65 \<le> n \<and> n \<le> 90 \<and> m = n + 32))"

definition any_case_of :: "string \<Rightarrow> string \<Rightarrow> bool" where
  "any_case_of pat s = list_all2 same_letter s pat"

text \<open>Type tests and key membership.\<close>

fun is_str :: "pyval \<Rightarrow> bool" where
  "is_str (PyStr s) = True"
| "is_str _ = False"

fun is_list :: "pyval \<Rightarrow> bool" where
  "is_list (PyList xs) = True"
| "is_list _ = False"

fun is_dict :: "pyval \<Rightarrow> bool" where
  "is_dict (PyDict d) = True"
| "is_dict _ = False"

fun has_key :: "pyval \<Rightarrow> string \<Rightarrow> bool" where
  "has_key (PyDict d) k = (map_of d k \<noteq> None)"
| "has_key _ k = False"

text \<open>
  \<open>write_row r f ps m\<close>: the cells \<open>m\<close> after writing \<open>f header\<close> at row \<open>r\<close> for each
  (column, header) of \<open>ps\<close>. \<open>field_text d header\<close>: the text the second loop passes to
  the cell of a field. \<open>cell_text_ok v\<close>: the workbook accepts the text \<open>v\<close>.
  \<open>renderable details\<close>: a mapping in which every list among the ten fields holds only
  strings and every field's text is accepted by the workbook.
\<close>

fun write_row ::
    "nat \<Rightarrow> (string \<Rightarrow> cell) \<Rightarrow> (nat \<times> string) list \<Rightarrow> (nat \<times> nat \<rightharpoonup> cell)
     \<Rightarrow> (nat \<times> nat \<rightharpoonup> cell)" where
  "write_row r f [] m = m"
| "write_row r f ((i, h) # ps) m = write_row r f ps (m((r, i) \<mapsto> f h))"

definition field_text :: "(string \<times> pyval) list \<Rightarrow> string \<Rightarrow> string" where
  "field_text d header =
     (case map_of d header of
        None \<Rightarrow> ''Not provided''
      | Some (PyList items) \<Rightarrow> join '', '' (map py_str items)
      | Some v \<Rightarrow> py_str v)"

definition cell_text_ok :: "string \<Rightarrow> bool" where
  "cell_text_ok v = (\<not> list_ex illegal_character (take 32767 v))"

definition field_ok :: "(string \<times> pyval) list \<Rightarrow> string \<Rightarrow> bool" where
  "field_ok d header =
     ((case map_of d header of Some (PyList items) \<Rightarrow> list_all is_str items | _ \<Rightarrow> True)
      \<and> cell_text_ok (field_text d header))"

fun renderable :: "pyval \<Rightarrow> bool" where
  "renderable (PyDict d) = list_all (field_ok d) headers"
| "renderable _ = False"

section \<open>Properties\<close>

subsection \<open>Whitespace normalisation\<close>

lemma dropWhile_head: "dropWhile P xs = y # ys \<Longrightarrow> \<not> P y"
  by (metis hd_dropWhile list.sel(1) list.distinct(1))

lemma re_sub_ws_no_double: "no_double_ws (re_sub_ws s)"
proof (induction s rule: re_sub_ws.induct)
  case 1
  show ?case by simp
next
  case (2 c cs)
  show ?case
  proof (cases "isspace c")
    case True
    show ?thesis
    proof (cases "dropWhile isspace cs")
      case Nil
      have "re_sub_ws (c # cs) = [CHR '' '']"
        using True by (simp only: re_sub_ws.simps Nil if_True)
      then show ?thesis by simp
    next
      case (Cons y ys)
      then have ny: "\<not> isspace y" by (rule dropWhile_head)
      have eq: "re_sub_ws (c # cs) = CHR '' '' # y # re_sub_ws ys"
        using True ny by (simp only: re_sub_ws.simps Cons if_True if_False)
      have "no_double_ws (re_sub_ws (dropWhile isspace cs))"
        using 2(1) True by simp
      then have "no_double_ws (y # re_sub_ws ys)"
        using ny by (simp only: Cons re_sub_ws.simps if_False)
      then show ?thesis unfolding eq using ny by simp
    qed
  next
    case False
    with 2 show ?thesis by (cases cs) auto
  qed
qed

lemma re_sub_ws_only_space: "c \<in> set (re_sub_ws s) \<Longrightarrow> isspace c \<Longrightarrow> c = CHR '' ''"
proof (induction s rule: re_sub_ws.induct)
  case 1
  then show ?case by simp
next
  case (2 d ds)
  show ?case
  proof (cases "isspace d")
    case True
    then have "re_sub_ws (d # ds) = CHR '' '' # re_sub_ws (dropWhile isspace ds)" by simp
    then have "c = CHR '' '' \<or> c \<in> set (re_sub_ws (dropWhile isspace ds))"
      using 2(3) by simp
    then show ?thesis using 2(1)[OF True] 2(4) by blast
  next
    case False
    then have "re_sub_ws (d # ds) = d # re_sub_ws ds" by simp
    then have "c = d \<or> c \<in> set (re_sub_ws ds)" using 2(3) by simp
    then show ?thesis using 2(2)[OF False] 2(4) False by blast
  qed
qed

lemma re_sub_ws_fixed: "ws_normal s \<Longrightarrow> re_sub_ws s = s"
proof (induction s rule: re_sub_ws.induct)
  case 1
  show ?case by simp
next
  case (2 c cs)
  show ?case
  proof (cases "isspace c")
    case True
    have c: "c = CHR '' ''" using 2(3) True by (simp add: ws_normal_def)
    have dw: "dropWhile isspace cs = cs"
      using 2(3) True by (cases cs) (auto simp: ws_normal_def)
    have "ws_normal cs" using 2(3) by (cases cs) (auto simp: ws_normal_def)
    then have "re_sub_ws cs = cs" using 2(1) True dw by simp
    then show ?thesis using True c dw by simp
  next
    case False
    have "ws_normal cs" using 2(3) by (cases cs) (auto simp: ws_normal_def)
    then show ?thesis using 2(2) False by simp
  qed
qed

lemma no_double_ws_Cons: "no_double_ws (a # xs) \<Longrightarrow> no_double_ws xs"
  by (cases xs) simp_all

lemma no_double_ws_append: "no_double_ws (xs @ ys) \<Longrightarrow> no_double_ws xs \<and> no_double_ws ys"
proof (induction xs)
  case Nil
  then show ?case by simp
next
  case (Cons a xs)
  from Cons.prems have "no_double_ws (xs @ ys)"
    using no_double_ws_Cons [of a "xs @ ys"] by simp
  then have ih: "no_double_ws xs \<and> no_double_ws ys" by (rule Cons.IH)
  show ?case
  proof (cases xs)
    case Nil
    then show ?thesis using ih by simp
  next
    case (Cons b cs)
    then show ?thesis using ih Cons.prems by simp
  qed
qed

lemma strip_decomp: "\<exists>p q. s = p @ strip s @ q"
proof -
  have a: "s = takeWhile isspace s @ dropWhile isspace s" by simp
  let ?t = "dropWhile isspace s"
  have "strip s @ rev (takeWhile isspace (rev ?t))
          = rev (takeWhile isspace (rev ?t) @ dropWhile isspace (rev ?t))"
    by (simp only: strip_def rev_append)
  also have "\<dots> = rev (rev ?t)" by (simp only: takeWhile_dropWhile_id)
  also have "\<dots> = ?t" by (simp only: rev_rev_ident)
  finally have b: "?t = strip s @ rev (takeWhile isspace (rev ?t))" by (rule sym)
  from a b have "s = takeWhile isspace s @ strip s @ rev (takeWhile isspace (rev ?t))"
    by simp
  then show ?thesis by blast
qed

lemma strip_no_double: "no_double_ws s \<Longrightarrow> no_double_ws (strip s)"
proof -
  assume h: "no_double_ws s"
  obtain p q where "s = p @ strip s @ q" using strip_decomp by blast
  then have "no_double_ws (p @ strip s @ q)" using h by simp
  then show ?thesis using no_double_ws_append by blast
qed

lemma strip_set: "set (strip s) \<subseteq> set s"
  by (auto simp: strip_def dest!: set_dropWhileD)

lemma strip_last: "strip s = xs @ [c] \<Longrightarrow> \<not> isspace c"
proof -
  assume "strip s = xs @ [c]"
  then have "rev (strip s) = c # rev xs" by simp
  moreover have "rev (strip s) = dropWhile isspace (rev (dropWhile isspace s))"
    by (simp only: strip_def rev_rev_ident)
  ultimately have "dropWhile isspace (rev (dropWhile isspace s)) = c # rev xs" by simp
  then show ?thesis by (rule dropWhile_head)
qed

lemma dropWhile_rev_keep_head:
  "\<not> P y \<Longrightarrow> \<exists>zs. rev (dropWhile P (rev (y # ys))) = y # zs"
proof -
  assume ny: "\<not> P y"
  have "dropWhile P (rev ys @ [y]) = dropWhile P (rev ys) @ [y]"
  proof (cases "\<forall>x\<in>set (rev ys). P x")
    case True
    then have "dropWhile P (rev ys @ [y]) = dropWhile P [y]" by (intro dropWhile_append2) blast
    moreover have "dropWhile P (rev ys) = []" using True by simp
    ultimately show ?thesis using ny by simp
  next
    case False
    then obtain x where "x \<in> set (rev ys)" "\<not> P x" by blast
    then show ?thesis by (rule dropWhile_append1)
  qed
  then show ?thesis by simp
qed

lemma strip_first: "strip s = c # xs \<Longrightarrow> \<not> isspace c"
proof (cases "dropWhile isspace s")
  case Nil
  assume h: "strip s = c # xs"
  have "strip s = []" unfolding strip_def Nil by simp
  with h show ?thesis by simp
next
  case (Cons y ys)
  assume h: "strip s = c # xs"
  from Cons have ny: "\<not> isspace y" by (rule dropWhile_head)
  obtain zs where z: "rev (dropWhile isspace (rev (y # ys))) = y # zs"
    using dropWhile_rev_keep_head [of isspace y ys, OF ny] by (elim exE)
  have "strip s = y # zs" unfolding strip_def Cons by (rule z)
  with h have "c = y" by simp
  with ny show ?thesis by simp
qed

lemma strip_fixed:
  assumes "\<And>c xs. s = c # xs \<Longrightarrow> \<not> isspace c" and "\<And>c xs. s = xs @ [c] \<Longrightarrow> \<not> isspace c"
  shows "strip s = s"
proof (cases s)
  case Nil
  then show ?thesis by (simp add: strip_def)
next
  case (Cons c xs)
  then have "\<not> isspace c" using assms(1) by blast
  then have a: "dropWhile isspace s = s" using Cons by simp
  have "rev s \<noteq> []" using Cons by simp
  then obtain d ys where r: "rev s = d # ys" by (cases "rev s") auto
  then have "s = rev ys @ [d]" by (metis rev_rev_ident rev.simps(2))
  then have "\<not> isspace d" using assms(2) by blast
  then have "dropWhile isspace (rev s) = rev s" using r by simp
  then show ?thesis using a by (simp add: strip_def)
qed

lemma clean_text_normal: "ws_normal (clean_text x)"
proof -
  have "list_all (\<lambda>c. \<not> isspace c \<or> c = CHR '' '') (clean_text x)"
    unfolding list_all_iff clean_text_def
    using strip_set re_sub_ws_only_space by blast
  moreover have "no_double_ws (clean_text x)"
    unfolding clean_text_def by (rule strip_no_double) (rule re_sub_ws_no_double)
  ultimately show ?thesis by (simp add: ws_normal_def)
qed

lemma no_double_ws_mid: "no_double_ws (ys @ a # b # zs) \<Longrightarrow> \<not> (isspace a \<and> isspace b)"
proof -
  assume "no_double_ws (ys @ a # b # zs)"
  then have "no_double_ws (a # b # zs)" using no_double_ws_append by blast
  then show ?thesis by simp
qed

text \<open>
  Claim C4. For every input string, \<open>clean_text\<close> is idempotent, its result never holds
  two consecutive whitespace characters, and its result neither starts nor ends with a
  whitespace character.
\<close>

theorem clean_text_idempotent_no_ws_runs:
  "clean_text (clean_text x) = clean_text x
   \<and> \<not> (\<exists>ys a b zs. clean_text x = ys @ a # b # zs \<and> isspace a \<and> isspace b)
   \<and> \<not> (\<exists>c cs. clean_text x = c # cs \<and> isspace c)
   \<and> \<not> (\<exists>c cs. clean_text x = cs @ [c] \<and> isspace c)"
proof -
  have first: "\<And>c cs. clean_text x = c # cs \<Longrightarrow> \<not> isspace c"
    unfolding clean_text_def by (rule strip_first)
  have lst: "\<And>c cs. clean_text x = cs @ [c] \<Longrightarrow> \<not> isspace c"
    unfolding clean_text_def by (rule strip_last)
  have n: "ws_normal (clean_text x)" by (rule clean_text_normal)
  then have "re_sub_ws (clean_text x) = clean_text x" by (rule re_sub_ws_fixed)
  moreover have "strip (clean_text x) = clean_text x" using first lst by (rule strip_fixed)
  ultimately have idem: "clean_text (clean_text x) = clean_text x"
    by (simp add: clean_text_def)
  have nd: "no_double_ws (clean_text x)" using n by (simp add: ws_normal_def)
  have mid: "\<not> (\<exists>ys a b zs. clean_text x = ys @ a # b # zs \<and> isspace a \<and> isspace b)"
  proof
    assume "\<exists>ys a b zs. clean_text x = ys @ a # b # zs \<and> isspace a \<and> isspace b"
    then obtain ys a b zs where e: "clean_text x = ys @ a # b # zs" and ab: "isspace a \<and> isspace b"
      by blast
    from nd e have "no_double_ws (ys @ a # b # zs)" by simp
    then have "\<not> (isspace a \<and> isspace b)" by (rule no_double_ws_mid)
    with ab show False by simp
  qed
  show ?thesis using idem mid first lst by blast
qed


theorem clean_text_idempotent_no_ws_runs_witness:
  "clean_text ''  Kitchen \<newline>\<newline>  and   bath  '' = ''Kitchen and bath''
   \<and> clean_text ''Kitchen and bath'' = ''Kitchen and bath''"
  using clean_text_idempotent_no_ws_runs [of "''  Kitchen \<newline>\<newline>  and   bath  ''"]
  by (simp add: clean_text_def strip_def isspace_def)

subsection \<open>Format dispatch\<close>

lemma lower_char_ascii:
  assumes "(of_char p :: nat) < 128" and "\<not> (65 \<le> (of_char p :: nat) \<and> (of_char p :: nat) \<le> 90)"
  shows "lower_char c = p \<longleftrightarrow> same_letter c p"
proof -
  define m where "m = (of_char c :: nat)"
  define n where "n = (of_char p :: nat)"
  have n128: "n < 128" and nup: "\<not> (65 \<le> n \<and> n \<le> 90)"
    using assms by (simp_all add: n_def)
  have cp: "c = p \<longleftrightarrow> m = n" by (simp add: m_def n_def)
  have up: "char_of (m + 32) = p \<longleftrightarrow> (m + 32) mod 256 = n"
    by (simp add: char_of_eq_iff n_def take_bit_eq_mod)
  have lc: "lower_char c =
      (if (65 \<le> m \<and> m \<le> 90) \<or> (192 \<le> m \<and> m \<le> 222 \<and> m \<noteq> 215) then char_of (m + 32) else c)"
    by (simp add: lower_char_def m_def Let_def)
  have sl: "same_letter c p \<longleftrightarrow>
      (c = p \<or> (65 \<le> m \<and> m \<le> 90 \<and> n = m + 32) \<or> (65 \<le> n \<and> n \<le> 90 \<and> m = n + 32))"
    by (simp add: same_letter_def m_def n_def Let_def)
  show ?thesis
  proof (cases "(65 \<le> m \<and> m \<le> 90) \<or> (192 \<le> m \<and> m \<le> 222 \<and> m \<noteq> 215)")
    case True
    have "lower_char c = char_of (m + 32)" by (subst lc) (simp only: True if_True)
    then have "lower_char c = p \<longleftrightarrow> (m + 32) mod 256 = n" using up by simp
    also have "\<dots> \<longleftrightarrow> m + 32 = n" using True by auto
    also have "\<dots> \<longleftrightarrow> same_letter c p"
      unfolding sl cp using True n128 nup by auto
    finally show ?thesis .
  next
    case False
    have "lower_char c = c" by (subst lc) (simp only: False if_False)
    then have "lower_char c = p \<longleftrightarrow> m = n" using cp by simp
    also have "\<dots> \<longleftrightarrow> same_letter c p"
      unfolding sl cp using False nup by auto
    finally show ?thesis .
  qed
qed

lemma lower_eq_any_case:
  "list_all (\<lambda>p. (of_char p :: nat) < 128 \<and> \<not> (65 \<le> (of_char p :: nat) \<and> (of_char p :: nat) \<le> 90)) pat
   \<Longrightarrow> lower s = pat \<longleftrightarrow> any_case_of pat s"
proof (induction s arbitrary: pat)
  case Nil
  then show ?case by (auto simp: lower_def any_case_of_def)
next
  case (Cons c cs)
  show ?case
  proof (cases pat)
    case Nil
    then show ?thesis by (simp add: lower_def any_case_of_def)
  next
    case (Cons p ps)
    with Cons.prems have hp: "(of_char p :: nat) < 128"
        "\<not> (65 \<le> (of_char p :: nat) \<and> (of_char p :: nat) \<le> 90)"
      and hps: "list_all (\<lambda>p. (of_char p :: nat) < 128 \<and> \<not> (65 \<le> (of_char p :: nat) \<and> (of_char p :: nat) \<le> 90)) ps"
      by simp_all
    have "lower cs = ps \<longleftrightarrow> any_case_of ps cs" using Cons.IH [OF hps] .
    moreover have "lower_char c = p \<longleftrightarrow> same_letter c p" using hp by (rule lower_char_ascii)
    ultimately show ?thesis using Cons by (simp add: lower_def any_case_of_def)
  qed
qed

lemma lower_docx: "lower e = ''.docx'' \<longleftrightarrow> any_case_of ''.docx'' e"
  by (rule lower_eq_any_case) simp

lemma lower_pdf: "lower e = ''.pdf'' \<longleftrightarrow> any_case_of ''.pdf'' e"
  by (rule lower_eq_any_case) simp

text \<open>
  Claim C5. The extension string, lower-cased, selects the path. An extension that is
  \<open>.docx\<close> up to letter case selects the DOCX path, one that is \<open>.pdf\<close> up to letter case
  the PDF path; every other extension gives \<open>ValueError\<close> (unsupported format) whatever the
  bytes are and whatever the two parsers would do, so neither parser's result is used.
  The extension string carries its leading dot, as \<open>os.path.splitext\<close> returns it.
\<close>

theorem extract_text_dispatch:
  "(any_case_of ''.docx'' file_extension \<longrightarrow>
      extract_text docx_Document PdfReader file_bytes file_extension
        = extract_text_from_docx docx_Document file_bytes)
   \<and> (any_case_of ''.pdf'' file_extension \<longrightarrow>
      extract_text docx_Document PdfReader file_bytes file_extension
        = extract_text_from_pdf PdfReader file_bytes)
   \<and> (\<not> any_case_of ''.docx'' file_extension \<and> \<not> any_case_of ''.pdf'' file_extension \<longrightarrow>
      extract_text docx_Document PdfReader file_bytes file_extension
        = Inl (ValueError (''Unsupported file format: '' @ lower file_extension)))"
  unfolding lower_docx [symmetric] lower_pdf [symmetric]
  by (simp add: extract_text_def Let_def)

theorem extract_text_dispatch_witness:
  "\<forall>docx_Document PdfReader file_bytes.
     extract_text docx_Document PdfReader file_bytes ''.DocX''
       = extract_text_from_docx docx_Document file_bytes
     \<and> extract_text docx_Document PdfReader file_bytes ''.PDF''
       = extract_text_from_pdf PdfReader file_bytes
     \<and> extract_text docx_Document PdfReader file_bytes ''.txt''
       = Inl (ValueError ''Unsupported file format: .txt'')
     \<and> extract_text docx_Document PdfReader file_bytes ''docx''
       = Inl (ValueError ''Unsupported file format: docx'')"
proof (intro allI)
  fix docx_Document PdfReader and file_bytes :: bytes
  have a: "any_case_of ''.docx'' ''.DocX''" by (simp add: any_case_of_def same_letter_def)
  have b: "any_case_of ''.pdf'' ''.PDF''" by (simp add: any_case_of_def same_letter_def)
  have c: "\<not> any_case_of ''.docx'' ''.txt'' \<and> \<not> any_case_of ''.pdf'' ''.txt''"
    by (simp add: any_case_of_def same_letter_def)
  have d: "\<not> any_case_of ''.docx'' ''docx'' \<and> \<not> any_case_of ''.pdf'' ''docx''"
    by (simp add: any_case_of_def same_letter_def)
  have l1: "lower ''.txt'' = ''.txt''" by (simp add: lower_def lower_char_def)
  have l2: "lower ''docx'' = ''docx''" by (simp add: lower_def lower_char_def)
  show "extract_text docx_Document PdfReader file_bytes ''.DocX''
       = extract_text_from_docx docx_Document file_bytes
     \<and> extract_text docx_Document PdfReader file_bytes ''.PDF''
       = extract_text_from_pdf PdfReader file_bytes
     \<and> extract_text docx_Document PdfReader file_bytes ''.txt''
       = Inl (ValueError ''Unsupported file format: .txt'')
     \<and> extract_text docx_Document PdfReader file_bytes ''docx''
       = Inl (ValueError ''Unsupported file format: docx'')"
    using extract_text_dispatch [of "''.DocX''" docx_Document PdfReader file_bytes]
          extract_text_dispatch [of "''.PDF''" docx_Document PdfReader file_bytes]
          extract_text_dispatch [of "''.txt''" docx_Document PdfReader file_bytes]
          extract_text_dispatch [of "''docx''" docx_Document PdfReader file_bytes]
          a b c d l1 l2
    by simp
qed

subsection \<open>Prompt\<close>

lemma sublist_prompt_tail: "sublist n prompt_tail \<Longrightarrow> sublist n (build_prompt t)"
  unfolding build_prompt_def
  by (metis sublist_append_leftI sublist_order.order.trans)

lemma names_in_prompt_tail: "list_all (\<lambda>n. sublist n prompt_tail) headers"
  by code_simp

text \<open>
  Claim C6. For every transcript \<open>t\<close>, the prompt holds \<open>t\<close> as a contiguous substring
  and holds each of the ten field names as a substring.
\<close>

theorem build_prompt_contains:
  "sublist t (build_prompt t) \<and> list_all (\<lambda>n. sublist n (build_prompt t)) headers"
proof -
  have "sublist t (build_prompt t)" unfolding build_prompt_def by (rule sublist_appendI)
  moreover have "list_all (\<lambda>n. sublist n (build_prompt t)) headers"
    using names_in_prompt_tail sublist_prompt_tail by (simp add: list_all_iff)
  ultimately show ?thesis by simp
qed

theorem build_prompt_contains_witness:
  "sublist ''Client: Jane Doe, budget $50,000'' (build_prompt ''Client: Jane Doe, budget $50,000'')
   \<and> sublist ''ProjectName'' (build_prompt ''Client: Jane Doe, budget $50,000'')
   \<and> sublist ''AdditionalNotes'' (build_prompt ''Client: Jane Doe, budget $50,000'')"
  using build_prompt_contains [of "''Client: Jane Doe, budget $50,000''"]
  by (simp add: headers_def)

subsection \<open>The decoder consumes its input and never runs out of fuel\<close>

lemma skip_ws_length: "length (skip_ws s) \<le> length s"
  by (simp add: skip_ws_def length_dropWhile_le)

lemma skip_ws_Cons: "skip_ws s = c # r \<Longrightarrow> length r < length s"
  using skip_ws_length [of s] by simp

lemma cons_char_result:
  assumes "case x of Inr (k, r) \<Rightarrow> length r < length t
                   | Inl e \<Rightarrow> e = JSONDecodeError \<or> e = Unmodelled ''escape above U+00FF''"
    and "length t < length s"
  shows "case cons_char c x of Inr (k, r) \<Rightarrow> length r < length s
                   | Inl e \<Rightarrow> e = JSONDecodeError \<or> e = Unmodelled ''escape above U+00FF''"
  using assms by (cases x) (auto simp: cons_char_def)

lemma scanstring_result:
  "case scanstring s of Inr (k, r) \<Rightarrow> length r < length s
                   | Inl e \<Rightarrow> e = JSONDecodeError \<or> e = Unmodelled ''escape above U+00FF''"
proof (induction s rule: scanstring.induct)
  case 1
  show ?case by simp
next
  case (2 c cs)
  show ?case
  proof (cases "c = CHR 0x22")
    case True
    then show ?thesis by simp
  next
    case nq: False
    show ?thesis
    proof (cases "c = CHR 0x5C")
      case True
      show ?thesis
      proof (cases cs)
        case Nil
        with nq True show ?thesis by simp
      next
        case (Cons e cs1)
        show ?thesis
        proof (cases "e = CHR ''u''")
          case eu: True
          show ?thesis
          proof (cases cs1)
            case Nil
            with nq True Cons eu show ?thesis by simp
          next
            case c1: (Cons h1 t1)
            show ?thesis
            proof (cases t1)
              case Nil
              with nq True Cons eu c1 show ?thesis by simp
            next
              case c2: (Cons h2 t2)
              show ?thesis
              proof (cases t2)
                case Nil
                with nq True Cons eu c1 c2 show ?thesis by simp
              next
                case c3: (Cons h3 t3)
                show ?thesis
                proof (cases t3)
                  case Nil
                  with nq True Cons eu c1 c2 c3 show ?thesis by simp
                next
                  case c4: (Cons h4 cs2)
                  show ?thesis
                  proof (cases "decode_uXXXX h1 h2 h3 h4")
                    case None
                    with nq True Cons eu c1 c2 c3 c4 show ?thesis by simp
                  next
                    case (Some n)
                    show ?thesis
                    proof (cases "n < 256")
                      case False
                      with nq True Cons eu c1 c2 c3 c4 Some show ?thesis by simp
                    next
                      case lt: True
                      have eq: "scanstring (c # cs) = cons_char (char_of n) (scanstring cs2)"
                        using nq True Cons eu c1 c2 c3 c4 Some lt by simp
                      have "length cs2 < length (c # cs)" using Cons c1 c2 c3 c4 by simp
                      with "2.IH"(1) [OF nq True Cons eu c1 c2 c3 c4 Some lt]
                      show ?thesis unfolding eq by (rule cons_char_result)
                    qed
                  qed
                qed
              qed
            qed
          qed
        next
          case neu: False
          show ?thesis
          proof (cases "unescape e")
            case None
            with nq True Cons neu show ?thesis by simp
          next
            case (Some ch)
            have eq: "scanstring (c # cs) = cons_char ch (scanstring cs1)"
              using nq True Cons neu Some by simp
            have "length cs1 < length (c # cs)" using Cons by simp
            with "2.IH"(2) [OF nq True Cons neu Some]
            show ?thesis unfolding eq by (rule cons_char_result)
          qed
        qed
      qed
    next
      case nb: False
      show ?thesis
      proof (cases "(of_char c :: nat) < 32")
        case True
        with nq nb show ?thesis by simp
      next
        case False
        have eq: "scanstring (c # cs) = cons_char c (scanstring cs)"
          using nq nb False by simp
        have "length cs < length (c # cs)" by simp
        with "2.IH"(3) [OF nq nb False]
        show ?thesis unfolding eq by (rule cons_char_result)
      qed
    qed
  qed
qed

lemma scanstring_shorter: "scanstring s = Inr (k, r) \<Longrightarrow> length r < length s"
  using scanstring_result [of s] by simp

lemma scanstring_no_fuel: "scanstring s \<noteq> Inl (Unmodelled ''fuel'')"
  using scanstring_result [of s] by (cases "scanstring s") auto

lemma match_literal_shorter:
  "lit \<noteq> [] \<Longrightarrow> match_literal lit s = Some r \<Longrightarrow> length r < length s"
proof -
  assume ne: "lit \<noteq> []" and m: "match_literal lit s = Some r"
  from m have t: "take (length lit) s = lit" and r: "r = drop (length lit) s"
    by (auto simp: match_literal_def split: if_splits)
  have "length (take (length lit) s) = length lit" by (simp only: t)
  then have le: "length lit \<le> length s" by (simp add: min_def split: if_splits)
  have pos: "0 < length lit" using ne by simp
  have lr: "length r = length s - length lit" using r by simp
  show ?thesis using le pos lr by linarith
qed

lemma match_int_shorter: "match_int s = Some (i, r) \<Longrightarrow> length r < length s"
  by (cases s)
     (auto simp: match_int_def Let_def less_Suc_eq_le length_dropWhile_le
           split: if_splits list.splits
           intro: le_trans [OF length_dropWhile_le])

lemma match_frac_length: "match_frac s = (f, r) \<Longrightarrow> length r \<le> length s"
  by (auto simp: match_frac_def split: list.splits if_splits
           intro: le_trans [OF length_dropWhile_le])

lemma match_exp_length: "match_exp s = (e, r) \<Longrightarrow> length r \<le> length s"
  by (auto simp: match_exp_def Let_def split: list.splits if_splits prod.splits
           intro: le_trans [OF length_dropWhile_le])

lemma match_number_shorter: "match_number s = Some (Inr (v, r)) \<Longrightarrow> length r < length s"
proof -
  assume m: "match_number s = Some (Inr (v, r))"
  then obtain i r1 where a: "match_int s = Some (i, r1)"
    by (auto simp: match_number_def split: option.splits)
  obtain f r2 where b: "match_frac r1 = (f, r2)" by (cases "match_frac r1")
  obtain e r3 where c: "match_exp r2 = (e, r3)" by (cases "match_exp r2")
  from m a b c have "r = r3" by (auto simp: match_number_def split: if_splits)
  moreover have "length r1 < length s" using a by (rule match_int_shorter)
  moreover have "length r2 \<le> length r1" using b by (rule match_frac_length)
  moreover have "length r3 \<le> length r2" using c by (rule match_exp_length)
  ultimately show ?thesis by simp
qed

lemma scan_atom_shorter: "scan_atom s = Inr (v, r) \<Longrightarrow> length r < length s"
  unfolding scan_atom_def
  by (auto split: option.splits dest: match_number_shorter
           dest!: match_literal_shorter [rotated])

lemma match_number_no_fuel: "match_number s \<noteq> Some (Inl (Unmodelled ''fuel''))"
  by (auto simp: match_number_def Let_def split: option.splits prod.splits if_splits)

lemma scan_atom_no_fuel: "scan_atom s \<noteq> Inl (Unmodelled ''fuel'')"
  unfolding scan_atom_def using match_number_no_fuel [of s]
  by (auto split: option.splits)

lemma scan_once_shorter_step:
  assumes o: "\<And>p t v r. JSONObject n p t = Inr (v, r) \<Longrightarrow> length r < length t"
    and a: "\<And>vs t v r. JSONArray n vs t = Inr (v, r) \<Longrightarrow> length r < length t"
    and res: "scan_once (Suc n) s = Inr (v, r)"
  shows "length r < length s"
proof (cases s)
  case Nil
  with res show ?thesis by simp
next
  case (Cons c cs)
  show ?thesis
  proof (cases "c = CHR 0x22")
    case True
    with res Cons obtain str where "scanstring cs = Inr (str, r)"
      by (auto split: sum.splits)
    then have "length r < length cs" by (rule scanstring_shorter)
    then show ?thesis using Cons by simp
  next
    case nq: False
    show ?thesis
    proof (cases "c = CHR ''{''")
      case True
      with res Cons nq obtain d rest where sk: "skip_ws cs = d # rest"
        by (cases "skip_ws cs") auto
      then have l: "length rest < length cs" by (rule skip_ws_Cons)
      show ?thesis
      proof (cases "d = CHR ''}''")
        case True
        with res Cons nq \<open>c = CHR ''{''\<close> sk have "r = rest" by simp
        with l Cons show ?thesis by simp
      next
        case False
        with res Cons nq \<open>c = CHR ''{''\<close> sk have "JSONObject n [] rest = Inr (v, r)"
          by (auto split: if_splits)
        then have "length r < length rest" by (rule o)
        with l Cons show ?thesis by simp
      qed
    next
      case nb: False
      show ?thesis
      proof (cases "c = CHR ''[''")
        case True
        with res Cons nq nb obtain d rest where sk: "skip_ws cs = d # rest"
          by (cases "skip_ws cs") auto
        then have l: "length rest < length cs" by (rule skip_ws_Cons)
        show ?thesis
        proof (cases "d = CHR '']''")
          case True
          with res Cons nq nb \<open>c = CHR ''[''\<close> sk have "r = rest" by simp
          with l Cons show ?thesis by simp
        next
          case False
          with res Cons nq nb \<open>c = CHR ''[''\<close> sk have "JSONArray n [] (d # rest) = Inr (v, r)"
            by simp
          then have "length r < length (d # rest)" by (rule a)
          with l Cons show ?thesis by simp
        qed
      next
        case False
        with res Cons nq nb have "scan_atom s = Inr (v, r)" by simp
        then show ?thesis by (rule scan_atom_shorter)
      qed
    qed
  qed
qed

lemma JSONObject_shorter_step:
  assumes so: "\<And>t v r. scan_once n t = Inr (v, r) \<Longrightarrow> length r < length t"
    and o: "\<And>p t v r. JSONObject n p t = Inr (v, r) \<Longrightarrow> length r < length t"
    and res: "JSONObject (Suc n) pairs s = Inr (v, r)"
  shows "length r < length s"
proof -
  from res obtain key r1 where k: "scanstring s = Inr (key, r1)"
    by (cases "scanstring s") auto
  then have l1: "length r1 < length s" by (rule scanstring_shorter)
  from res k obtain c r2 where s1: "skip_ws r1 = c # r2"
    by (cases "skip_ws r1") auto
  then have l2: "length r2 < length r1" by (rule skip_ws_Cons)
  from res k s1 have cc: "c = CHR '':''" by (auto split: if_splits)
  from res k s1 cc obtain w r3 where sv: "scan_once n (skip_ws r2) = Inr (w, r3)"
    by (cases "scan_once n (skip_ws r2)") auto
  then have "length r3 < length (skip_ws r2)" by (rule so)
  then have l3: "length r3 < length r2" using skip_ws_length [of r2] by simp
  from res k s1 cc sv obtain d r4 where s3: "skip_ws r3 = d # r4"
    by (cases "skip_ws r3") (auto simp: Let_def)
  then have l4: "length r4 < length r3" by (rule skip_ws_Cons)
  show ?thesis
  proof (cases "d = CHR ''}''")
    case True
    with res k s1 cc sv s3 have "r = r4" by (simp add: Let_def)
    with l1 l2 l3 l4 show ?thesis by simp
  next
    case False
    with res k s1 cc sv s3 have dc: "d = CHR '',''" by (auto simp: Let_def split: if_splits)
    from res k s1 cc sv s3 False dc obtain q r5 where s5: "skip_ws r4 = q # r5"
      by (cases "skip_ws r4") (auto simp: Let_def)
    then have l5: "length r5 < length r4" by (rule skip_ws_Cons)
    from res k s1 cc sv s3 False dc s5
    have "JSONObject n (AList.update key w pairs) r5 = Inr (v, r)"
      by (auto simp: Let_def split: if_splits)
    then have "length r < length r5" by (rule o)
    with l1 l2 l3 l4 l5 show ?thesis by simp
  qed
qed

lemma JSONArray_shorter_step:
  assumes so: "\<And>t v r. scan_once n t = Inr (v, r) \<Longrightarrow> length r < length t"
    and a: "\<And>vs t v r. JSONArray n vs t = Inr (v, r) \<Longrightarrow> length r < length t"
    and res: "JSONArray (Suc n) vals s = Inr (v, r)"
  shows "length r < length s"
proof -
  from res obtain w r1 where sv: "scan_once n s = Inr (w, r1)"
    by (cases "scan_once n s") auto
  then have l1: "length r1 < length s" by (rule so)
  from res sv obtain d r2 where s1: "skip_ws r1 = d # r2"
    by (cases "skip_ws r1") (auto simp: Let_def)
  then have l2: "length r2 < length r1" by (rule skip_ws_Cons)
  show ?thesis
  proof (cases "d = CHR '']''")
    case True
    with res sv s1 have "r = r2" by (simp add: Let_def)
    with l1 l2 show ?thesis by simp
  next
    case False
    with res sv s1 have "JSONArray n (vals @ [w]) (skip_ws r2) = Inr (v, r)"
      by (auto simp: Let_def split: if_splits)
    then have "length r < length (skip_ws r2)" by (rule a)
    with l1 l2 skip_ws_length [of r2] show ?thesis by simp
  qed
qed

lemma decoder_shorter:
  "(\<forall>s v r. scan_once n s = Inr (v, r) \<longrightarrow> length r < length s)
   \<and> (\<forall>p s v r. JSONObject n p s = Inr (v, r) \<longrightarrow> length r < length s)
   \<and> (\<forall>vs s v r. JSONArray n vs s = Inr (v, r) \<longrightarrow> length r < length s)"
proof (induction n)
  case 0
  show ?case by simp
next
  case (Suc n)
  have so: "\<And>t v r. scan_once n t = Inr (v, r) \<Longrightarrow> length r < length t"
    and o: "\<And>p t v r. JSONObject n p t = Inr (v, r) \<Longrightarrow> length r < length t"
    and a: "\<And>vs t v r. JSONArray n vs t = Inr (v, r) \<Longrightarrow> length r < length t"
    using Suc by blast+
  show ?case
  proof (intro conjI allI impI)
    fix s v r
    assume "scan_once (Suc n) s = Inr (v, r)"
    with o a show "length r < length s"
      by (rule scan_once_shorter_step [where n = n])
  next
    fix p s v r
    assume "JSONObject (Suc n) p s = Inr (v, r)"
    with so o show "length r < length s"
      by (rule JSONObject_shorter_step [where n = n])
  next
    fix vs s v r
    assume "JSONArray (Suc n) vs s = Inr (v, r)"
    with so a show "length r < length s"
      by (rule JSONArray_shorter_step [where n = n])
  qed
qed

lemma scan_once_shorter: "scan_once n s = Inr (v, r) \<Longrightarrow> length r < length s"
  using decoder_shorter [of n] by blast

lemma scan_once_fuel_step:
  assumes o: "\<And>p t. 2 * length t + 1 < n \<Longrightarrow> JSONObject n p t \<noteq> Inl (Unmodelled ''fuel'')"
    and a: "\<And>vs t. 2 * length t + 1 < n \<Longrightarrow> JSONArray n vs t \<noteq> Inl (Unmodelled ''fuel'')"
    and fuel: "2 * length s < Suc n"
  shows "scan_once (Suc n) s \<noteq> Inl (Unmodelled ''fuel'')"
proof (cases s)
  case Nil
  then show ?thesis by simp
next
  case (Cons c cs)
  show ?thesis
  proof (cases "c = CHR 0x22")
    case True
    then show ?thesis
      using Cons scanstring_no_fuel [of cs] by (cases "scanstring cs") auto
  next
    case nq: False
    show ?thesis
    proof (cases "c = CHR ''{''")
      case True
      show ?thesis
      proof (cases "skip_ws cs")
        case Nil
        with Cons nq True show ?thesis by simp
      next
        case sk: (Cons d rest)
        then have "length rest < length cs" by (rule skip_ws_Cons)
        with fuel Cons have "2 * length rest + 1 < n" by simp
        then have "JSONObject n [] rest \<noteq> Inl (Unmodelled ''fuel'')" by (rule o)
        with Cons nq True sk show ?thesis by simp
      qed
    next
      case nb: False
      show ?thesis
      proof (cases "c = CHR ''[''")
        case True
        show ?thesis
        proof (cases "skip_ws cs")
          case Nil
          with Cons nq nb True show ?thesis by simp
        next
          case sk: (Cons d rest)
          have "length (d # rest) \<le> length cs" using skip_ws_length [of cs] sk by simp
          with fuel Cons have "2 * length (d # rest) + 1 < n" by simp
          then have "JSONArray n [] (d # rest) \<noteq> Inl (Unmodelled ''fuel'')" by (rule a)
          with Cons nq nb True sk show ?thesis by simp
        qed
      next
        case False
        with Cons nq nb show ?thesis using scan_atom_no_fuel [of s] by simp
      qed
    qed
  qed
qed

lemma JSONObject_fuel_step:
  assumes so: "\<And>t. 2 * length t < n \<Longrightarrow> scan_once n t \<noteq> Inl (Unmodelled ''fuel'')"
    and o: "\<And>p t. 2 * length t + 1 < n \<Longrightarrow> JSONObject n p t \<noteq> Inl (Unmodelled ''fuel'')"
    and fuel: "2 * length s + 1 < Suc n"
  shows "JSONObject (Suc n) pairs s \<noteq> Inl (Unmodelled ''fuel'')"
proof (cases "scanstring s")
  case (Inl e)
  then have "e \<noteq> Unmodelled ''fuel''" using scanstring_no_fuel [of s] by simp
  with Inl show ?thesis by simp
next
  case (Inr kr)
  obtain key r1 where kr: "kr = (key, r1)" by (cases kr)
  have k: "scanstring s = Inr (key, r1)" using Inr kr by simp
  then have l1: "length r1 < length s" by (rule scanstring_shorter)
  show ?thesis
  proof (cases "skip_ws r1")
    case Nil
    with k show ?thesis by simp
  next
    case s1: (Cons c r2)
    then have l2: "length r2 < length r1" by (rule skip_ws_Cons)
    show ?thesis
    proof (cases "c = CHR '':''")
      case False
      with k s1 show ?thesis by simp
    next
      case cc: True
      have "2 * length (skip_ws r2) < n"
        using fuel l1 l2 skip_ws_length [of r2] by simp
      then have nf: "scan_once n (skip_ws r2) \<noteq> Inl (Unmodelled ''fuel'')" by (rule so)
      show ?thesis
      proof (cases "scan_once n (skip_ws r2)")
        case (Inl e)
        with nf have "e \<noteq> Unmodelled ''fuel''" by simp
        with k s1 cc Inl show ?thesis by simp
      next
        case (Inr wr)
        obtain w r3 where wr: "wr = (w, r3)" by (cases wr)
        have sv: "scan_once n (skip_ws r2) = Inr (w, r3)" using Inr wr by simp
        then have "length r3 < length (skip_ws r2)" by (rule scan_once_shorter)
        then have l3: "length r3 < length r2" using skip_ws_length [of r2] by simp
        show ?thesis
        proof (cases "skip_ws r3")
          case Nil
          with k s1 cc sv show ?thesis by (simp add: Let_def)
        next
          case s3: (Cons d r4)
          then have l4: "length r4 < length r3" by (rule skip_ws_Cons)
          show ?thesis
          proof (cases "d = CHR ''}'' \<or> d \<noteq> CHR '',''")
            case True
            with k s1 cc sv s3 show ?thesis by (auto simp: Let_def)
          next
            case False
            then have d: "d \<noteq> CHR ''}''" "d = CHR '',''" by simp_all
            show ?thesis
            proof (cases "skip_ws r4")
              case Nil
              with k s1 cc sv s3 d show ?thesis by (simp add: Let_def)
            next
              case s5: (Cons q r5)
              then have l5: "length r5 < length r4" by (rule skip_ws_Cons)
              have "2 * length r5 + 1 < n" using fuel l1 l2 l3 l4 l5 by simp
              then have "JSONObject n (AList.update key w pairs) r5 \<noteq> Inl (Unmodelled ''fuel'')"
                by (rule o)
              with k s1 cc sv s3 d s5 show ?thesis by (simp add: Let_def)
            qed
          qed
        qed
      qed
    qed
  qed
qed

lemma JSONArray_fuel_step:
  assumes so: "\<And>t. 2 * length t < n \<Longrightarrow> scan_once n t \<noteq> Inl (Unmodelled ''fuel'')"
    and a: "\<And>vs t. 2 * length t + 1 < n \<Longrightarrow> JSONArray n vs t \<noteq> Inl (Unmodelled ''fuel'')"
    and fuel: "2 * length s + 1 < Suc n"
  shows "JSONArray (Suc n) vals s \<noteq> Inl (Unmodelled ''fuel'')"
proof -
  have "2 * length s < n" using fuel by simp
  then have nf: "scan_once n s \<noteq> Inl (Unmodelled ''fuel'')" by (rule so)
  show ?thesis
  proof (cases "scan_once n s")
    case (Inl e)
    with nf have "e \<noteq> Unmodelled ''fuel''" by simp
    with Inl show ?thesis by simp
  next
    case (Inr wr)
    obtain w r1 where wr: "wr = (w, r1)" by (cases wr)
    have sv: "scan_once n s = Inr (w, r1)" using Inr wr by simp
    then have l1: "length r1 < length s" by (rule scan_once_shorter)
    show ?thesis
    proof (cases "skip_ws r1")
      case Nil
      with sv show ?thesis by (simp add: Let_def)
    next
      case s1: (Cons d r2)
      then have l2: "length r2 < length r1" by (rule skip_ws_Cons)
      show ?thesis
      proof (cases "d = CHR '']'' \<or> d \<noteq> CHR '',''")
        case True
        with sv s1 show ?thesis by (auto simp: Let_def)
      next
        case False
        then have d: "d \<noteq> CHR '']''" "d = CHR '',''" by simp_all
        have "2 * length (skip_ws r2) + 1 < n"
          using fuel l1 l2 skip_ws_length [of r2] by simp
        then have "JSONArray n (vals @ [w]) (skip_ws r2) \<noteq> Inl (Unmodelled ''fuel'')"
          by (rule a)
        with sv s1 d show ?thesis by (simp add: Let_def)
      qed
    qed
  qed
qed

lemma decoder_fuel:
  "(\<forall>s. 2 * length s < n \<longrightarrow> scan_once n s \<noteq> Inl (Unmodelled ''fuel''))
   \<and> (\<forall>p s. 2 * length s + 1 < n \<longrightarrow> JSONObject n p s \<noteq> Inl (Unmodelled ''fuel''))
   \<and> (\<forall>vs s. 2 * length s + 1 < n \<longrightarrow> JSONArray n vs s \<noteq> Inl (Unmodelled ''fuel''))"
proof (induction n)
  case 0
  show ?case by simp
next
  case (Suc n)
  have so: "\<And>t. 2 * length t < n \<Longrightarrow> scan_once n t \<noteq> Inl (Unmodelled ''fuel'')"
    and o: "\<And>p t. 2 * length t + 1 < n \<Longrightarrow> JSONObject n p t \<noteq> Inl (Unmodelled ''fuel'')"
    and a: "\<And>vs t. 2 * length t + 1 < n \<Longrightarrow> JSONArray n vs t \<noteq> Inl (Unmodelled ''fuel'')"
    using Suc by blast+
  show ?case
  proof (intro conjI allI impI)
    fix s :: string
    assume "2 * length s < Suc n"
    with o a show "scan_once (Suc n) s \<noteq> Inl (Unmodelled ''fuel'')"
      by (rule scan_once_fuel_step [where n = n])
  next
    fix p and s :: string
    assume "2 * length s + 1 < Suc n"
    with so o show "JSONObject (Suc n) p s \<noteq> Inl (Unmodelled ''fuel'')"
      by (rule JSONObject_fuel_step [where n = n])
  next
    fix vs and s :: string
    assume "2 * length s + 1 < Suc n"
    with so a show "JSONArray (Suc n) vs s \<noteq> Inl (Unmodelled ''fuel'')"
      by (rule JSONArray_fuel_step [where n = n])
  qed
qed

lemma json_loads_fuel: "json_loads s \<noteq> Inl (Unmodelled ''fuel'')"
proof -
  have "2 * length (skip_ws s) < Suc (2 * length s)"
    using skip_ws_length [of s] by simp
  then have "scan_once (Suc (2 * length s)) (skip_ws s) \<noteq> Inl (Unmodelled ''fuel'')"
    using decoder_fuel [of "Suc (2 * length s)"] by blast
  then show ?thesis
    by (auto simp: json_loads_def split: sum.splits prod.splits if_splits)
qed

subsection \<open>Extraction client\<close>

lemma fallback_details_fields:
  "fallback_details = PyDict (map (\<lambda>k. (k, PyStr ''Not provided'')) headers)"
  by (simp add: fallback_details_def headers_def)

lemma extract_details_decoded:
  assumes "create (completion_request (build_prompt t)) = Inr content"
    and "loads (strip content) = Inr v"
  shows "extract_details_with_gpt create loads t = Inr (v, [])"
  using assms by (simp add: extract_details_with_gpt_def Let_def)

text \<open>
  Claim C2, as stated, fails. The content is stripped of Python's whitespace before it
  is decoded, and that whitespace is more than JSON's: a form feed followed by \<open>{}\<close> is
  not valid JSON, yet the stripped text is, and the empty object is returned.
\<close>

theorem extract_details_fallback_on_invalid_json_counterexample:
  "json_loads [CHR 0x0C, CHR ''{'', CHR ''}''] = Inl JSONDecodeError
   \<and> extract_details_with_gpt (reply [CHR 0x0C, CHR ''{'', CHR ''}'']) json_loads
         ''Client: Jane Doe, budget $50,000''
       = Inr (PyDict [], [])
   \<and> PyDict [] \<noteq> fallback_details"
proof -
  have a: "json_loads [CHR 0x0C, CHR ''{'', CHR ''}''] = Inl JSONDecodeError"
    by code_simp
  have b: "json_loads (strip [CHR 0x0C, CHR ''{'', CHR ''}'']) = Inr (PyDict [])"
    by code_simp
  have c: "extract_details_with_gpt (reply [CHR 0x0C, CHR ''{'', CHR ''}'']) json_loads
         ''Client: Jane Doe, budget $50,000''
       = Inr (PyDict [], [])"
    using extract_details_decoded
            [where create = "reply [CHR 0x0C, CHR ''{'', CHR ''}'']" and loads = json_loads
               and t = "''Client: Jane Doe, budget $50,000''"
               and content = "[CHR 0x0C, CHR ''{'', CHR ''}'']"]
          b
    by (simp add: reply_def)
  have d: "PyDict [] \<noteq> fallback_details" by (simp add: fallback_details_def)
  show ?thesis using a c d by simp
qed

text \<open>
  Claim C2, amended. When the decoder rejects the stripped content with
  \<open>JSONDecodeError\<close>, \<open>extract_details_with_gpt\<close> returns normally, and what it returns
  is the fallback record, whose ten fields all equal \<open>Not provided\<close>.
\<close>

theorem extract_details_fallback_on_invalid_json:
  assumes "create (completion_request (build_prompt t)) = Inr content"
    and "loads (strip content) = Inl JSONDecodeError"
  shows "extract_details_with_gpt create loads t =
           Inr (fallback_details,
                [st_error ''Error parsing GPT JSON output. Returning fallback data.'',
                 st_write [''Raw GPT output was:'', strip content]])
         \<and> fallback_details = PyDict (map (\<lambda>k. (k, PyStr ''Not provided'')) headers)"
  using assms fallback_details_fields
  by (simp add: extract_details_with_gpt_def Let_def)

lemma json_loads_prose:
  "json_loads (strip (''Sure, here'' @ [CHR 0x27] @ ''s the info: ...'')) = Inl JSONDecodeError"
  by code_simp

theorem extract_details_fallback_on_invalid_json_witness:
  "extract_details_with_gpt
      (reply (''Sure, here'' @ [CHR 0x27] @ ''s the info: ...'')) json_loads
      ''Client: Jane Doe, budget $50,000''
     = Inr (fallback_details,
            [st_error ''Error parsing GPT JSON output. Returning fallback data.'',
             st_write [''Raw GPT output was:'',
                       strip (''Sure, here'' @ [CHR 0x27] @ ''s the info: ...'')]])
   \<and> fallback_details = PyDict (map (\<lambda>k. (k, PyStr ''Not provided'')) headers)"
  using extract_details_fallback_on_invalid_json
          [where create = "reply (''Sure, here'' @ [CHR 0x27] @ ''s the info: ...'')"
             and loads = json_loads and t = "''Client: Jane Doe, budget $50,000''"
             and content = "''Sure, here'' @ [CHR 0x27] @ ''s the info: ...''"]
        json_loads_prose
  by (simp add: reply_def)

text \<open>
  Claim C3. When the stripped content decodes to a JSON object, that object is
  returned as it is: no key is checked or added and no value is changed.
\<close>

theorem extract_details_returns_parsed_object:
  assumes "create (completion_request (build_prompt t)) = Inr content"
    and "loads (strip content) = Inr (PyDict d)"
  shows "extract_details_with_gpt create loads t = Inr (PyDict d, [])"
  using assms by (rule extract_details_decoded)

lemma json_loads_object:
  \<open>json_loads
     (strip ''  {"ProjectName": "Oak St Remodel", "RenovationAreas": ["Kitchen", "Bath"], "Floors": 2}\<newline>'')
   = Inr (PyDict [(''ProjectName'', PyStr ''Oak St Remodel''),
                  (''RenovationAreas'', PyList [PyStr ''Kitchen'', PyStr ''Bath'']),
                  (''Floors'', PyInt 2)])\<close>
  by code_simp

theorem extract_details_returns_parsed_object_witness:
  \<open>extract_details_with_gpt
      (reply ''  {"ProjectName": "Oak St Remodel", "RenovationAreas": ["Kitchen", "Bath"], "Floors": 2}\<newline>'')
      json_loads ''Client: Jane Doe, budget $50,000''
     = Inr (PyDict [(''ProjectName'', PyStr ''Oak St Remodel''),
                    (''RenovationAreas'', PyList [PyStr ''Kitchen'', PyStr ''Bath'']),
                    (''Floors'', PyInt 2)], [])\<close>
  using extract_details_returns_parsed_object
          [where create = \<open>reply ''  {"ProjectName": "Oak St Remodel", "RenovationAreas": ["Kitchen", "Bath"], "Floors": 2}\<newline>''\<close>
             and loads = json_loads and t = "''Client: Jane Doe, budget $50,000''"
             and content = \<open>''  {"ProjectName": "Oak St Remodel", "RenovationAreas": ["Kitchen", "Bath"], "Floors": 2}\<newline>''\<close>]
        json_loads_object
  by (simp add: reply_def)

text \<open>
  Claim C9. When the text handed to the decoder (the stripped content) decodes to a
  value that is not an object, that value is returned as it is, not the fallback record:
  the result need not be a mapping.
\<close>

theorem extract_details_returns_non_object:
  assumes "create (completion_request (build_prompt t)) = Inr content"
    and "loads (strip content) = Inr v"
    and "\<not> is_dict v"
  shows "extract_details_with_gpt create loads t = Inr (v, [])
         \<and> v \<noteq> fallback_details \<and> \<not> is_dict v"
proof -
  have "v \<noteq> fallback_details" using assms(3) by (auto simp: fallback_details_def)
  moreover have "extract_details_with_gpt create loads t = Inr (v, [])"
    using assms(1,2) by (rule extract_details_decoded)
  ultimately show ?thesis using assms(3) by simp
qed

lemma json_loads_array: "json_loads (strip '' [1, 2] '') = Inr (PyList [PyInt 1, PyInt 2])"
  by code_simp

lemma json_loads_int: "json_loads (strip ''42'') = Inr (PyInt 42)"
  by code_simp

lemma json_loads_string: \<open>json_loads (strip ''"Kitchen"'') = Inr (PyStr ''Kitchen'')\<close>
  by code_simp

theorem extract_details_returns_non_object_witness:
  \<open>extract_details_with_gpt (reply '' [1, 2] '') json_loads ''Client: Jane Doe''
     = Inr (PyList [PyInt 1, PyInt 2], [])
   \<and> extract_details_with_gpt (reply ''42'') json_loads ''Client: Jane Doe''
     = Inr (PyInt 42, [])
   \<and> extract_details_with_gpt (reply ''"Kitchen"'') json_loads ''Client: Jane Doe''
     = Inr (PyStr ''Kitchen'', [])\<close>
  using extract_details_returns_non_object
          [where create = "reply '' [1, 2] ''" and loads = json_loads
             and t = "''Client: Jane Doe''" and content = "'' [1, 2] ''"]
        extract_details_returns_non_object
          [where create = "reply ''42''" and loads = json_loads
             and t = "''Client: Jane Doe''" and content = "''42''"]
        extract_details_returns_non_object
          [where create = \<open>reply ''"Kitchen"''\<close> and loads = json_loads
             and t = "''Client: Jane Doe''" and content = \<open>''"Kitchen"''\<close>]
        json_loads_array json_loads_int json_loads_string
  by (simp add: reply_def)

text \<open>Claim C1, as stated, fails: an empty JSON object is returned with no key.\<close>

lemma json_loads_empty_object: "json_loads (strip ''{}'') = Inr (PyDict [])"
  by code_simp

theorem extract_details_missing_keys_counterexample:
  "extract_details_with_gpt (reply ''{}'') json_loads ''Client: Jane Doe, budget $50,000''
     = Inr (PyDict [], [])
   \<and> \<not> has_key (PyDict []) ''ProjectName''"
  using extract_details_decoded
          [where create = "reply ''{}''" and loads = json_loads
             and t = "''Client: Jane Doe, budget $50,000''" and content = "''{}''"]
        json_loads_empty_object
  by (simp add: reply_def)

subsection \<open>Renderer\<close>

lemma str_items_ok: "list_all is_str vs \<Longrightarrow> str_items i vs = Inr (map py_str vs)"
proof (induction vs arbitrary: i)
  case Nil
  show ?case by simp
next
  case (Cons v vs)
  then obtain s where v: "v = PyStr s" by (cases v) auto
  from Cons have "str_items (Suc i) vs = Inr (map py_str vs)" by simp
  then show ?case by (simp add: v)
qed

lemma str_items_bad: "\<not> list_all is_str vs \<Longrightarrow> \<exists>msg. str_items i vs = Inl (TypeError msg)"
proof (induction vs arbitrary: i)
  case Nil
  then show ?case by simp
next
  case (Cons v vs)
  show ?case
  proof (cases "is_str v")
    case True
    then obtain s where v: "v = PyStr s" by (cases v) auto
    from True Cons.prems have "\<not> list_all is_str vs" by simp
    then obtain msg where "str_items (Suc i) vs = Inl (TypeError msg)"
      using Cons.IH by blast
    then show ?thesis by (simp add: v)
  next
    case False
    then show ?thesis by (cases v) auto
  qed
qed

lemma check_string_ok: "cell_text_ok v \<Longrightarrow> check_string v = Inr (take 32767 v)"
  by (simp add: check_string_def cell_text_ok_def Let_def)

lemma check_string_refused: "\<not> cell_text_ok v \<Longrightarrow> check_string v = Inl IllegalCharacterError"
  by (simp add: check_string_def cell_text_ok_def Let_def)

lemma write_row_other_row: "r' \<noteq> r \<Longrightarrow> write_row r f ps m (r', c) = m (r', c)"
  by (induction ps arbitrary: m) auto

lemma write_row_not_written: "i \<notin> fst ` set ps \<Longrightarrow> write_row r f ps m (r, i) = m (r, i)"
  by (induction ps arbitrary: m) auto

lemma write_row_written:
  "distinct (map fst ps) \<Longrightarrow> (i, h) \<in> set ps \<Longrightarrow> write_row r f ps m (r, i) = Some (f h)"
proof (induction ps arbitrary: m)
  case Nil
  then show ?case by simp
next
  case (Cons p ps)
  obtain j k where p: "p = (j, k)" by (cases p)
  show ?case
  proof (cases "(i, h) = p")
    case True
    then have "i \<notin> fst ` set ps" using Cons.prems(1) p by auto
    then have "write_row r f ps (m((r, j) \<mapsto> f k)) (r, i) = (m((r, j) \<mapsto> f k)) (r, i)"
      by (rule write_row_not_written)
    then show ?thesis using True p by simp
  next
    case False
    then have "(i, h) \<in> set ps" using Cons.prems(2) by simp
    moreover have "distinct (map fst ps)" using Cons.prems(1) by simp
    ultimately have "write_row r f ps (m((r, j) \<mapsto> f k)) (r, i) = Some (f h)"
      by (rule Cons.IH [rotated])
    then show ?thesis using p by simp
  qed
qed

lemma write_row_dom: "dom (write_row r f ps m) = dom m \<union> (\<lambda>i. (r, i)) ` fst ` set ps"
proof (induction ps arbitrary: m)
  case Nil
  show ?case by simp
next
  case (Cons p ps)
  obtain j k where p: "p = (j, k)" by (cases p)
  show ?case unfolding p write_row.simps Cons.IH by auto
qed

lemma header_loop_step:
  "1 \<le> i \<Longrightarrow> i \<le> 18278 \<Longrightarrow> check_string h = Inr h \<Longrightarrow>
   header_loop ws ((i, h) # ps) =
     header_loop
       (ws\<lparr>cells := (cells ws)((1, i) \<mapsto>
              \<lparr>cell_value = h, cell_font = Some header_font, cell_fill = Some header_fill,
               cell_alignment = Some center_alignment, cell_border = Some thin_border\<rparr>),
           column_width := (column_width ws)(col_letters i \<mapsto> 25)\<rparr>) ps"
  by (simp add: Let_def get_column_letter_def new_cell_def)

lemma header_loop_result:
  "list_all (\<lambda>p. 1 \<le> fst p \<and> fst p \<le> 18278 \<and> check_string (snd p) = Inr (snd p)) ps \<Longrightarrow>
   \<exists>ws'. header_loop ws ps = Inr ws'
     \<and> title ws' = title ws
     \<and> cells ws' =
         write_row 1
           (\<lambda>h. \<lparr>cell_value = h, cell_font = Some header_font, cell_fill = Some header_fill,
                 cell_alignment = Some center_alignment, cell_border = Some thin_border\<rparr>)
           ps (cells ws)"
proof (induction ps arbitrary: ws)
  case Nil
  show ?case by simp
next
  case (Cons p ps)
  obtain i h where p: "p = (i, h)" by (cases p)
  from Cons.prems p have i: "1 \<le> i" "i \<le> 18278" "check_string h = Inr h"
    and rest: "list_all (\<lambda>p. 1 \<le> fst p \<and> fst p \<le> 18278 \<and> check_string (snd p) = Inr (snd p)) ps"
    by simp_all
  define f where "f = (\<lambda>h. \<lparr>cell_value = h, cell_font = Some header_font,
     cell_fill = Some header_fill, cell_alignment = Some center_alignment,
     cell_border = Some thin_border\<rparr>)"
  define w where "w = ws\<lparr>cells := (cells ws)((1, i) \<mapsto> f h),
                          column_width := (column_width ws)(col_letters i \<mapsto> 25)\<rparr>"
  have step: "header_loop ws ((i, h) # ps) = header_loop w ps"
    unfolding w_def f_def by (rule header_loop_step [OF i])
  have tw: "title w = title ws" and cw: "cells w = (cells ws)((1, i) \<mapsto> f h)"
    by (simp_all add: w_def)
  obtain ws' where a: "header_loop w ps = Inr ws'" and b: "title ws' = title w"
      and c: "cells ws' = write_row 1 f ps (cells w)"
    using Cons.IH [OF rest, of w] unfolding f_def by blast
  have "header_loop ws (p # ps) = Inr ws'" by (simp only: p step a)
  moreover have "title ws' = title ws" by (simp only: b tw)
  moreover have "cells ws' = write_row 1 f (p # ps) (cells ws)"
    by (simp only: p write_row.simps c cw)
  ultimately show ?case unfolding f_def by blast
qed

lemma value_loop_step:
  "value_loop (PyDict d) ws ((i, h) # ps) =
     (case (case map_of d h of
              Some (PyList items) \<Rightarrow>
                (case join_values '', '' items of Inl e \<Rightarrow> Inl e | Inr joined \<Rightarrow> Inr joined)
            | Some v \<Rightarrow> Inr (py_str v)
            | None \<Rightarrow> Inr ''Not provided'') of
        Inl e \<Rightarrow> Inl e
      | Inr txt \<Rightarrow>
          (case check_string txt of
             Inl e \<Rightarrow> Inl e
           | Inr v \<Rightarrow>
               value_loop (PyDict d)
                 (ws\<lparr>cells := (cells ws)((2, i) \<mapsto>
                        \<lparr>cell_value = v, cell_font = None, cell_fill = None,
                         cell_alignment = Some wrap_alignment,
                         cell_border = Some thin_border\<rparr>)\<rparr>) ps))"
proof (cases "map_of d h")
  case None
  then show ?thesis
    by (simp add: details_get_def new_cell_def Let_def split: sum.splits)
next
  case (Some v)
  then show ?thesis
    by (cases v) (simp_all add: details_get_def new_cell_def Let_def split: sum.splits)
qed

lemma join_values_strings:
  "list_all is_str items \<Longrightarrow> join_values sep items = Inr (join sep (map py_str items))"
  by (simp add: join_values_def str_items_ok)

lemma join_values_TypeError:
  "\<not> list_all is_str items \<Longrightarrow> \<exists>msg. join_values sep items = Inl (TypeError msg)"
proof -
  assume "\<not> list_all is_str items"
  then obtain msg where "str_items 0 items = Inl (TypeError msg)"
    using str_items_bad by blast
  then show ?thesis by (simp add: join_values_def)
qed

lemma field_text_step:
  assumes "case map_of d h of Some (PyList items) \<Rightarrow> list_all is_str items | _ \<Rightarrow> True"
  shows "(case map_of d h of
              Some (PyList items) \<Rightarrow>
                (case join_values '', '' items of Inl e \<Rightarrow> Inl e | Inr joined \<Rightarrow> Inr joined)
            | Some v \<Rightarrow> Inr (py_str v)
            | None \<Rightarrow> Inr ''Not provided'') = (Inr (field_text d h) :: py_error + string)"
proof (cases "map_of d h")
  case None
  then show ?thesis by (simp add: field_text_def)
next
  case (Some v)
  then show ?thesis
    using assms by (cases v) (simp_all add: field_text_def join_values_strings)
qed

lemma value_loop_step_ok:
  "field_ok d h \<Longrightarrow>
   value_loop (PyDict d) ws ((i, h) # ps) =
     value_loop (PyDict d)
       (ws\<lparr>cells := (cells ws)((2, i) \<mapsto>
              \<lparr>cell_value = take 32767 (field_text d h), cell_font = None, cell_fill = None,
               cell_alignment = Some wrap_alignment, cell_border = Some thin_border\<rparr>)\<rparr>) ps"
proof -
  assume ok: "field_ok d h"
  then have a: "case map_of d h of Some (PyList items) \<Rightarrow> list_all is_str items | _ \<Rightarrow> True"
    and b: "cell_text_ok (field_text d h)"
    by (simp_all add: field_ok_def)
  show ?thesis
    unfolding value_loop_step field_text_step [OF a]
    by (simp add: check_string_ok [OF b])
qed

lemma value_loop_step_TypeError:
  "map_of d h = Some (PyList items) \<Longrightarrow> \<not> list_all is_str items \<Longrightarrow>
   \<exists>msg. value_loop (PyDict d) ws ((i, h) # ps) = Inl (TypeError msg)"
proof -
  assume m: "map_of d h = Some (PyList items)" and ns: "\<not> list_all is_str items"
  from ns obtain msg where "join_values '', '' items = Inl (TypeError msg)"
    using join_values_TypeError by blast
  then show ?thesis unfolding value_loop_step by (simp add: m)
qed

lemma value_loop_step_bad:
  "\<not> field_ok d h \<Longrightarrow>
   \<exists>e. value_loop (PyDict d) ws ((i, h) # ps) = Inl e
        \<and> (e = IllegalCharacterError \<or> (\<exists>msg. e = TypeError msg))"
proof (cases "case map_of d h of Some (PyList items) \<Rightarrow> list_all is_str items | _ \<Rightarrow> True")
  case True
  assume "\<not> field_ok d h"
  with True have "\<not> cell_text_ok (field_text d h)" by (simp add: field_ok_def)
  then have "check_string (field_text d h) = Inl IllegalCharacterError"
    by (rule check_string_refused)
  then have "value_loop (PyDict d) ws ((i, h) # ps) = Inl IllegalCharacterError"
    unfolding value_loop_step field_text_step [OF True] by simp
  then show ?thesis by simp
next
  case False
  then obtain items where m: "map_of d h = Some (PyList items)" and ns: "\<not> list_all is_str items"
    by (auto split: option.splits pyval.splits)
  then obtain msg where "value_loop (PyDict d) ws ((i, h) # ps) = Inl (TypeError msg)"
    using value_loop_step_TypeError by blast
  then show ?thesis by simp
qed

lemma value_loop_result:
  "list_all (field_ok d) (map snd ps) \<Longrightarrow>
   \<exists>ws'. value_loop (PyDict d) ws ps = Inr ws'
     \<and> title ws' = title ws
     \<and> cells ws' =
         write_row 2
           (\<lambda>h. \<lparr>cell_value = take 32767 (field_text d h), cell_font = None, cell_fill = None,
                 cell_alignment = Some wrap_alignment, cell_border = Some thin_border\<rparr>)
           ps (cells ws)"
proof (induction ps arbitrary: ws)
  case Nil
  show ?case by simp
next
  case (Cons p ps)
  obtain i h where p: "p = (i, h)" by (cases p)
  from Cons.prems p have ok: "field_ok d h" and rest: "list_all (field_ok d) (map snd ps)"
    by simp_all
  define f where "f = (\<lambda>h. \<lparr>cell_value = take 32767 (field_text d h), cell_font = None,
     cell_fill = None, cell_alignment = Some wrap_alignment, cell_border = Some thin_border\<rparr>)"
  define w where "w = ws\<lparr>cells := (cells ws)((2, i) \<mapsto> f h)\<rparr>"
  have step: "value_loop (PyDict d) ws ((i, h) # ps) = value_loop (PyDict d) w ps"
    unfolding w_def f_def by (rule value_loop_step_ok [OF ok])
  have tw: "title w = title ws" and cw: "cells w = (cells ws)((2, i) \<mapsto> f h)"
    by (simp_all add: w_def)
  obtain ws' where a: "value_loop (PyDict d) w ps = Inr ws'" and b: "title ws' = title w"
      and c: "cells ws' = write_row 2 f ps (cells w)"
    using Cons.IH [OF rest, of w] unfolding f_def by blast
  have "value_loop (PyDict d) ws (p # ps) = Inr ws'" by (simp only: p step a)
  moreover have "title ws' = title ws" by (simp only: b tw)
  moreover have "cells ws' = write_row 2 f (p # ps) (cells ws)"
    by (simp only: p write_row.simps c cw)
  ultimately show ?case unfolding f_def by blast
qed

lemma value_loop_bad:
  "\<not> list_all (field_ok d) (map snd ps) \<Longrightarrow>
   \<exists>e. value_loop (PyDict d) ws ps = Inl e
        \<and> (e = IllegalCharacterError \<or> (\<exists>msg. e = TypeError msg))"
proof (induction ps arbitrary: ws)
  case Nil
  then show ?case by simp
next
  case (Cons p ps)
  obtain i h where p: "p = (i, h)" by (cases p)
  show ?case
  proof (cases "field_ok d h")
    case True
    with Cons.prems p have "\<not> list_all (field_ok d) (map snd ps)" by simp
    then show ?thesis
      unfolding p value_loop_step_ok [OF True] by (rule Cons.IH)
  next
    case False
    then show ?thesis unfolding p by (rule value_loop_step_bad)
  qed
qed

lemma enumerate_headers_bounds:
  "list_all (\<lambda>p. 1 \<le> fst p \<and> fst p \<le> 18278 \<and> check_string (snd p) = Inr (snd p))
     (enumerate 1 headers)"
  by (simp add: headers_def check_string_def illegal_character_def)

lemma snd_enumerate_headers: "map snd (enumerate 1 headers) = headers"
  by (simp add: headers_def)

lemma length_headers: "length headers = 10"
  by (simp add: headers_def)

lemma fst_enumerate_headers: "fst ` set (enumerate 1 headers) = {1..10}"
proof -
  have "fst ` set (enumerate 1 headers) = set (map fst (enumerate 1 headers))"
    by (simp only: set_map)
  also have "\<dots> = {1..<11}" by (simp add: length_headers)
  also have "\<dots> = {1..10}" by auto
  finally show ?thesis .
qed

lemma create_pretty_excel_result:
  assumes "renderable (PyDict d)"
  shows "\<exists>ws. create_pretty_excel (PyDict d) = Inr \<lparr>sheets = [ws], active = 0\<rparr>
     \<and> title ws = ''Renovation Data''
     \<and> cells ws =
         write_row 2
           (\<lambda>h. \<lparr>cell_value = take 32767 (field_text d h), cell_font = None, cell_fill = None,
                 cell_alignment = Some wrap_alignment, cell_border = Some thin_border\<rparr>)
           (enumerate 1 headers)
           (write_row 1
              (\<lambda>h. \<lparr>cell_value = h, cell_font = Some header_font, cell_fill = Some header_fill,
                    cell_alignment = Some center_alignment, cell_border = Some thin_border\<rparr>)
              (enumerate 1 headers) Map.empty)"
proof -
  let ?ws0 = "\<lparr>title = ''Renovation Data'', cells = Map.empty, column_width = Map.empty,
               row_height = Map.empty, freeze_panes = None\<rparr>"
  obtain ws1 where h: "header_loop ?ws0 (enumerate 1 headers) = Inr ws1"
      and t1: "title ws1 = ''Renovation Data''"
      and c1: "cells ws1 =
         write_row 1
           (\<lambda>h. \<lparr>cell_value = h, cell_font = Some header_font, cell_fill = Some header_fill,
                 cell_alignment = Some center_alignment, cell_border = Some thin_border\<rparr>)
           (enumerate 1 headers) Map.empty"
    using header_loop_result [OF enumerate_headers_bounds, of ?ws0] by auto
  have ok: "list_all (field_ok d) (map snd (enumerate 1 headers))"
    using assms by (simp add: snd_enumerate_headers)
  obtain ws2 where v: "value_loop (PyDict d) ws1 (enumerate 1 headers) = Inr ws2"
      and t2: "title ws2 = title ws1"
      and c2: "cells ws2 =
         write_row 2
           (\<lambda>h. \<lparr>cell_value = take 32767 (field_text d h), cell_font = None, cell_fill = None,
                 cell_alignment = Some wrap_alignment, cell_border = Some thin_border\<rparr>)
           (enumerate 1 headers) (cells ws1)"
    using value_loop_result [OF ok, of ws1] by auto
  have "create_pretty_excel (PyDict d) =
          Inr \<lparr>sheets = [ws2\<lparr>freeze_panes := Some ''A2'', row_height := (row_height ws2)(1 \<mapsto> 25)\<rparr>],
               active = 0\<rparr>"
    using h v by (simp add: create_pretty_excel_def Workbook_def Let_def)
  then show ?thesis using t1 t2 c1 c2 by simp
qed

lemma create_pretty_excel_raises:
  assumes "\<not> renderable (PyDict d)"
  shows "\<exists>e. create_pretty_excel (PyDict d) = Inl e
           \<and> (e = IllegalCharacterError \<or> (\<exists>msg. e = TypeError msg))"
proof -
  let ?ws0 = "\<lparr>title = ''Renovation Data'', cells = Map.empty, column_width = Map.empty,
               row_height = Map.empty, freeze_panes = None\<rparr>"
  obtain ws1 where h: "header_loop ?ws0 (enumerate 1 headers) = Inr ws1"
    using header_loop_result [OF enumerate_headers_bounds, of ?ws0] by auto
  have "\<not> list_all (field_ok d) (map snd (enumerate 1 headers))"
    using assms by (simp add: snd_enumerate_headers)
  then obtain e where v: "value_loop (PyDict d) ws1 (enumerate 1 headers) = Inl e"
    and e: "e = IllegalCharacterError \<or> (\<exists>msg. e = TypeError msg)"
    using value_loop_bad by blast
  have "create_pretty_excel (PyDict d) = Inl e"
    using h v by (simp add: create_pretty_excel_def Workbook_def Let_def)
  with e show ?thesis by blast
qed

lemma create_pretty_excel_not_dict:
  "\<not> is_dict details \<Longrightarrow> \<exists>msg. create_pretty_excel details = Inl (AttributeError msg)"
proof -
  assume nd: "\<not> is_dict details"
  let ?ws0 = "\<lparr>title = ''Renovation Data'', cells = Map.empty, column_width = Map.empty,
               row_height = Map.empty, freeze_panes = None\<rparr>"
  obtain ws1 where h: "header_loop ?ws0 (enumerate 1 headers) = Inr ws1"
    using header_loop_result [OF enumerate_headers_bounds, of ?ws0] by auto
  have "\<exists>msg. value_loop details ws1 (enumerate 1 headers) = Inl (AttributeError msg)"
    using nd by (cases details) (simp_all add: headers_def details_get_def)
  then obtain msg where "value_loop details ws1 (enumerate 1 headers) = Inl (AttributeError msg)"
    by blast
  then have "create_pretty_excel details = Inl (AttributeError msg)"
    using h by (simp add: create_pretty_excel_def Workbook_def Let_def)
  then show ?thesis by blast
qed

lemma enumerate_headers_distinct: "distinct (map fst (enumerate 1 headers))"
  by simp

lemma enumerate_headers_member:
  "i < length headers \<Longrightarrow> (Suc i, headers ! i) \<in> set (enumerate 1 headers)"
  by (simp add: in_set_enumerate_eq)

lemma rendered_cells:
  assumes c: "cells ws =
         write_row 2 g (enumerate 1 headers) (write_row 1 f (enumerate 1 headers) Map.empty)"
  shows "dom (cells ws) = {1, 2} \<times> {1..10}"
    and "i < length headers \<Longrightarrow> cells ws (1, Suc i) = Some (f (headers ! i))"
    and "i < length headers \<Longrightarrow> cells ws (2, Suc i) = Some (g (headers ! i))"
proof -
  show "dom (cells ws) = {1, 2} \<times> {1..10}"
    unfolding c write_row_dom fst_enumerate_headers by auto
next
  assume i: "i < length headers"
  have "cells ws (1, Suc i) = write_row 1 f (enumerate 1 headers) Map.empty (1, Suc i)"
    unfolding c by (rule write_row_other_row) simp
  also have "\<dots> = Some (f (headers ! i))"
    using enumerate_headers_distinct enumerate_headers_member [OF i] by (rule write_row_written)
  finally show "cells ws (1, Suc i) = Some (f (headers ! i))" .
next
  assume i: "i < length headers"
  show "cells ws (2, Suc i) = Some (g (headers ! i))"
    unfolding c
    using enumerate_headers_distinct enumerate_headers_member [OF i] by (rule write_row_written)
qed

lemma renderable_dict: "renderable details \<Longrightarrow> \<exists>d. details = PyDict d"
  by (cases details) simp_all

lemma create_pretty_excel_refused_text:
  "create_pretty_excel (PyDict [(''ProjectName'', PyStr [CHR ''a'', CHR 0x0C, CHR ''b''])])
     = Inl IllegalCharacterError"
  by (simp add: create_pretty_excel_def Workbook_def headers_def Let_def
        get_column_letter_def details_get_def new_cell_def
        check_string_def illegal_character_def)

text \<open>
  Claim C7, as stated, fails: a list field with a non-string element gives no workbook
  (nor does a text the workbook refuses, \<open>create_pretty_excel_refused_text\<close>).
\<close>

theorem create_pretty_excel_sheet_shape_counterexample:
  "create_pretty_excel (PyDict [(''Timeline'', PyList [PyNone])])
     = Inl (TypeError ''sequence item 0: expected str instance, NoneType found'')"
  by (simp add: create_pretty_excel_def Workbook_def headers_def Let_def
        get_column_letter_def details_get_def join_values_def new_cell_def
        check_string_def illegal_character_def str_of_nat.simps char_of_eq_iff)

text \<open>
  Claim C7, amended. For every mapping in which each list among the ten fields holds
  only strings and each field's text is one the workbook accepts, \<open>create_pretty_excel\<close>
  returns a workbook with exactly one sheet, named \<open>Renovation Data\<close>, whose populated
  cells are exactly rows 1 and 2 of columns 1 to 10, and whose row 1 holds the ten field
  names in the fixed order.
\<close>

theorem create_pretty_excel_sheet_shape:
  assumes "renderable details"
  shows "\<exists>wb ws. create_pretty_excel details = Inr wb
     \<and> sheets wb = [ws]
     \<and> title ws = ''Renovation Data''
     \<and> dom (cells ws) = {1, 2} \<times> {1..10}
     \<and> map (\<lambda>c. map_option cell_value (cells ws (1, c))) [1..<11] = map Some headers"
proof -
  obtain d where d: "details = PyDict d" using assms renderable_dict by blast
  obtain ws f g where r: "create_pretty_excel (PyDict d) = Inr \<lparr>sheets = [ws], active = 0\<rparr>"
    and t: "title ws = ''Renovation Data''"
    and c: "cells ws =
         write_row 2 g (enumerate 1 headers) (write_row 1 f (enumerate 1 headers) Map.empty)"
    and f: "f = (\<lambda>h. \<lparr>cell_value = h, cell_font = Some header_font, cell_fill = Some header_fill,
                    cell_alignment = Some center_alignment, cell_border = Some thin_border\<rparr>)"
    using create_pretty_excel_result [of d] assms d by blast
  have dm: "dom (cells ws) = {1, 2} \<times> {1..10}" using c by (rule rendered_cells(1))
  have row: "\<And>i. i < 10 \<Longrightarrow> map_option cell_value (cells ws (1, Suc i)) = Some (headers ! i)"
    using rendered_cells(2) [OF c] by (simp add: f length_headers)
  have "map (\<lambda>c. map_option cell_value (cells ws (1, c))) (map Suc [0..<10])
          = map (\<lambda>i. Some (headers ! i)) [0..<10]"
    using row by simp
  moreover have "map Suc [0..<10] = [1..<11]" by (simp add: map_Suc_upt)
  moreover have "map (\<lambda>i. Some (headers ! i)) [0..<10] = map Some headers"
    by (simp add: headers_def upt_rec)
  ultimately have hd: "map (\<lambda>c. map_option cell_value (cells ws (1, c))) [1..<11] = map Some headers"
    by simp
  show ?thesis using r t dm hd d by auto
qed

theorem create_pretty_excel_sheet_shape_witness:
  "renderable (PyDict [(''ProjectName'', PyStr ''Oak St Remodel''),
                       (''RenovationAreas'', PyList [PyStr ''Kitchen'', PyStr ''Bath''])])
   \<and> (\<exists>wb ws. create_pretty_excel
                  (PyDict [(''ProjectName'', PyStr ''Oak St Remodel''),
                           (''RenovationAreas'', PyList [PyStr ''Kitchen'', PyStr ''Bath''])])
                 = Inr wb
        \<and> sheets wb = [ws]
        \<and> title ws = ''Renovation Data''
        \<and> dom (cells ws) = {1, 2} \<times> {1..10}
        \<and> map (\<lambda>c. map_option cell_value (cells ws (1, c))) [1..<11] = map Some headers)"
proof -
  have r: "renderable (PyDict [(''ProjectName'', PyStr ''Oak St Remodel''),
                       (''RenovationAreas'', PyList [PyStr ''Kitchen'', PyStr ''Bath''])])"
    by (simp add: headers_def field_ok_def field_text_def cell_text_ok_def
          illegal_character_def)
  show ?thesis using r create_pretty_excel_sheet_shape [OF r] by simp
qed

lemma rendered_row2:
  assumes "renderable (PyDict d)" and "i < length headers"
  shows "\<exists>ws. create_pretty_excel (PyDict d) = Inr \<lparr>sheets = [ws], active = 0\<rparr>
     \<and> map_option cell_value (cells ws (2, Suc i))
         = Some (take 32767 (field_text d (headers ! i)))"
proof -
  obtain ws f g where r: "create_pretty_excel (PyDict d) = Inr \<lparr>sheets = [ws], active = 0\<rparr>"
    and c: "cells ws =
         write_row 2 g (enumerate 1 headers) (write_row 1 f (enumerate 1 headers) Map.empty)"
    and g: "g = (\<lambda>h. \<lparr>cell_value = take 32767 (field_text d h), cell_font = None, cell_fill = None,
                 cell_alignment = Some wrap_alignment, cell_border = Some thin_border\<rparr>)"
    using create_pretty_excel_result [OF assms(1)] by blast
  have "cells ws (2, Suc i) = Some (g (headers ! i))"
    using c assms(2) by (rule rendered_cells(3))
  then have "map_option cell_value (cells ws (2, Suc i))
      = Some (take 32767 (field_text d (headers ! i)))"
    by (simp add: g)
  with r show ?thesis by blast
qed

text \<open>Claim C8, as stated, fails: a list with a non-string element is not joined.\<close>

theorem create_pretty_excel_row2_values_counterexample:
  "create_pretty_excel (PyDict [(''MaterialPreferences'', PyList [PyStr ''Oak'', PyInt 2])])
     = Inl (TypeError ''sequence item 1: expected str instance, int found'')"
  by (simp add: create_pretty_excel_def Workbook_def headers_def Let_def
        get_column_letter_def details_get_def join_values_def new_cell_def
        check_string_def illegal_character_def str_of_nat.simps char_of_eq_iff)

text \<open>
  Claim C8, amended. For every mapping in which each list among the ten fields holds
  only strings and each field's text is one the workbook accepts, \<open>create_pretty_excel\<close>
  returns a workbook, and for every field in the fixed order the cell of row 2 in the
  field's column holds the first 32767 characters of: \<open>Not provided\<close> when the key is
  missing; the elements joined with a comma and a space when the value is a list (of
  strings); and otherwise \<open>str\<close> of the value.
\<close>

theorem create_pretty_excel_row2_values:
  assumes "renderable (PyDict d)" and "i < length headers"
  shows "\<exists>wb ws txt. create_pretty_excel (PyDict d) = Inr wb
     \<and> sheets wb = [ws]
     \<and> map_option cell_value (cells ws (2, Suc i)) = Some (take 32767 txt)
     \<and> (map_of d (headers ! i) = None \<longrightarrow> txt = ''Not provided'')
     \<and> (\<forall>items. map_of d (headers ! i) = Some (PyList (map PyStr items))
            \<longrightarrow> txt = join '', '' items)
     \<and> (\<forall>v. map_of d (headers ! i) = Some v \<and> \<not> is_list v \<longrightarrow> txt = py_str v)"
proof -
  obtain ws where r: "create_pretty_excel (PyDict d) = Inr \<lparr>sheets = [ws], active = 0\<rparr>"
    and c: "map_option cell_value (cells ws (2, Suc i))
              = Some (take 32767 (field_text d (headers ! i)))"
    using rendered_row2 [OF assms] by blast
  have a: "map_of d (headers ! i) = None \<longrightarrow> field_text d (headers ! i) = ''Not provided''"
    by (simp add: field_text_def)
  have b: "\<forall>items. map_of d (headers ! i) = Some (PyList (map PyStr items))
            \<longrightarrow> field_text d (headers ! i) = join '', '' items"
    by (simp add: field_text_def comp_def)
  have e: "\<forall>v. map_of d (headers ! i) = Some v \<and> \<not> is_list v
            \<longrightarrow> field_text d (headers ! i) = py_str v"
  proof (intro allI impI)
    fix v assume "map_of d (headers ! i) = Some v \<and> \<not> is_list v"
    then show "field_text d (headers ! i) = py_str v"
      by (cases v) (simp_all add: field_text_def)
  qed
  show ?thesis
    using r c a b e by (intro exI [of _ "\<lparr>sheets = [ws], active = 0\<rparr>"] exI [of _ ws]
      exI [of _ "field_text d (headers ! i)"]) simp
qed

lemma renderable_sample:
  "renderable (PyDict [(''ProjectName'', PyStr ''Oak St Remodel''),
                       (''RenovationAreas'', PyList [PyStr ''Kitchen'', PyStr ''Bath'']),
                       (''Timeline'', PyInt 6)])"
  by (simp add: headers_def field_ok_def field_text_def cell_text_ok_def
        illegal_character_def str_of_int_def str_of_nat.simps char_of_eq_iff)

theorem create_pretty_excel_row2_values_witness:
  "\<exists>wb ws. create_pretty_excel
              (PyDict [(''ProjectName'', PyStr ''Oak St Remodel''),
                       (''RenovationAreas'', PyList [PyStr ''Kitchen'', PyStr ''Bath'']),
                       (''Timeline'', PyInt 6)]) = Inr wb
     \<and> sheets wb = [ws]
     \<and> map_option cell_value (cells ws (2, 1)) = Some ''Oak St Remodel''
     \<and> map_option cell_value (cells ws (2, 2)) = Some ''Not provided''
     \<and> map_option cell_value (cells ws (2, 5)) = Some ''Kitchen, Bath''
     \<and> map_option cell_value (cells ws (2, 9)) = Some ''6''"
proof -
  let ?d = "[(''ProjectName'', PyStr ''Oak St Remodel''),
             (''RenovationAreas'', PyList [PyStr ''Kitchen'', PyStr ''Bath'']),
             (''Timeline'', PyInt 6)]"
  note th = create_pretty_excel_row2_values [OF renderable_sample]
  have lt: "0 < length headers" "1 < length headers" "4 < length headers" "8 < length headers"
    by (simp_all add: length_headers)
  obtain wb ws t0 where r: "create_pretty_excel (PyDict ?d) = Inr wb" and sh: "sheets wb = [ws]"
    and c0: "map_option cell_value (cells ws (2, Suc 0)) = Some (take 32767 t0)"
    and v0: "\<forall>v. map_of ?d (headers ! 0) = Some v \<and> \<not> is_list v \<longrightarrow> t0 = py_str v"
    using th [OF lt(1)] by (elim exE conjE) (rule that)
  have "map_of ?d (headers ! 0) = Some (PyStr ''Oak St Remodel'') \<and> \<not> is_list (PyStr ''Oak St Remodel'')"
    by (simp add: headers_def)
  with v0 have "t0 = py_str (PyStr ''Oak St Remodel'')" by blast
  with c0 have a: "map_option cell_value (cells ws (2, 1)) = Some ''Oak St Remodel''" by simp
  obtain wb1 ws1 t1 where r1: "create_pretty_excel (PyDict ?d) = Inr wb1" and sh1: "sheets wb1 = [ws1]"
    and c1: "map_option cell_value (cells ws1 (2, Suc 1)) = Some (take 32767 t1)"
    and v1: "map_of ?d (headers ! 1) = None \<longrightarrow> t1 = ''Not provided''"
    using th [OF lt(2)] by (elim exE conjE) (rule that)
  have "map_of ?d (headers ! 1) = None" by (simp add: headers_def)
  with v1 have "t1 = ''Not provided''" by blast
  moreover have "ws1 = ws" using r r1 sh sh1 by simp
  ultimately have b: "map_option cell_value (cells ws (2, 2)) = Some ''Not provided''"
    using c1 by (simp add: numeral_2_eq_2)
  obtain wb4 ws4 t4 where r4: "create_pretty_excel (PyDict ?d) = Inr wb4" and sh4: "sheets wb4 = [ws4]"
    and c4: "map_option cell_value (cells ws4 (2, Suc 4)) = Some (take 32767 t4)"
    and v4: "\<forall>items. map_of ?d (headers ! 4) = Some (PyList (map PyStr items))
               \<longrightarrow> t4 = join '', '' items"
    using th [OF lt(3)] by (elim exE conjE) (rule that)
  have "map_of ?d (headers ! 4) = Some (PyList (map PyStr [''Kitchen'', ''Bath'']))"
    by (simp add: headers_def)
  with v4 have "t4 = join '', '' [''Kitchen'', ''Bath'']" by blast
  then have "t4 = ''Kitchen, Bath''" by simp
  moreover have "ws4 = ws" using r r4 sh sh4 by simp
  moreover have "Suc 4 = 5" by simp
  ultimately have c: "map_option cell_value (cells ws (2, 5)) = Some ''Kitchen, Bath''"
    using c4 by simp
  obtain wb8 ws8 t8 where r8: "create_pretty_excel (PyDict ?d) = Inr wb8" and sh8: "sheets wb8 = [ws8]"
    and c8: "map_option cell_value (cells ws8 (2, Suc 8)) = Some (take 32767 t8)"
    and v8: "\<forall>v. map_of ?d (headers ! 8) = Some v \<and> \<not> is_list v \<longrightarrow> t8 = py_str v"
    using th [OF lt(4)] by (elim exE conjE) (rule that)
  have "map_of ?d (headers ! 8) = Some (PyInt 6) \<and> \<not> is_list (PyInt 6)"
    by (simp add: headers_def)
  with v8 have "t8 = py_str (PyInt 6)" by blast
  then have "t8 = ''6''" by (simp add: str_of_int_def str_of_nat.simps char_of_eq_iff)
  moreover have "ws8 = ws" using r r8 sh sh8 by simp
  moreover have "Suc 8 = 9" by simp
  ultimately have e: "map_option cell_value (cells ws (2, 9)) = Some ''6''"
    using c8 by simp
  show ?thesis using r sh a b c e by blast
qed

lemma value_loop_first_bad_list:
  assumes "header \<in> snd ` set ps"
    and "map_of d header = Some (PyList items)"
    and "\<not> list_all is_str items"
    and "list_all (field_ok d) (map snd (takeWhile (\<lambda>p. snd p \<noteq> header) ps))"
  shows "\<exists>msg. value_loop (PyDict d) ws ps = Inl (TypeError msg)"
  using assms
proof (induction ps arbitrary: ws)
  case Nil
  then show ?case by simp
next
  case (Cons p ps)
  obtain i h where p: "p = (i, h)" by (cases p)
  show ?case
  proof (cases "h = header")
    case True
    show ?thesis
      unfolding p True using Cons.prems(2,3) by (rule value_loop_step_TypeError)
  next
    case False
    with Cons.prems(1) p have m: "header \<in> snd ` set ps" by auto
    from False Cons.prems(4) p have ok: "field_ok d h"
      and rest: "list_all (field_ok d) (map snd (takeWhile (\<lambda>p. snd p \<noteq> header) ps))"
      by simp_all
    show ?thesis
      unfolding p value_loop_step_ok [OF ok]
      using m Cons.prems(2,3) rest by (rule Cons.IH)
  qed
qed

lemma create_pretty_excel_TypeError:
  assumes "header \<in> set headers"
    and "map_of d header = Some (PyList items)"
    and "\<not> list_all is_str items"
    and "list_all (field_ok d) (takeWhile (\<lambda>k. k \<noteq> header) headers)"
  shows "\<exists>msg. create_pretty_excel (PyDict d) = Inl (TypeError msg)"
proof -
  let ?ws0 = "\<lparr>title = ''Renovation Data'', cells = Map.empty, column_width = Map.empty,
               row_height = Map.empty, freeze_panes = None\<rparr>"
  obtain ws1 where h: "header_loop ?ws0 (enumerate 1 headers) = Inr ws1"
    using header_loop_result [OF enumerate_headers_bounds, of ?ws0] by auto
  have "snd ` set (enumerate 1 headers) = set (map snd (enumerate 1 headers))"
    by (simp only: set_map)
  then have m: "header \<in> snd ` set (enumerate 1 headers)"
    using assms(1) by (simp only: snd_enumerate_headers)
  have "map snd (takeWhile (\<lambda>p. snd p \<noteq> header) (enumerate 1 headers))
          = takeWhile (\<lambda>k. k \<noteq> header) (map snd (enumerate 1 headers))"
    by (simp only: takeWhile_map comp_def)
  then have ok: "list_all (field_ok d)
      (map snd (takeWhile (\<lambda>p. snd p \<noteq> header) (enumerate 1 headers)))"
    using assms(4) by (simp only: snd_enumerate_headers)
  obtain msg where "value_loop (PyDict d) ws1 (enumerate 1 headers) = Inl (TypeError msg)"
    using value_loop_first_bad_list [OF m assms(2,3) ok] by blast
  then have "create_pretty_excel (PyDict d) = Inl (TypeError msg)"
    using h by (simp add: create_pretty_excel_def Workbook_def Let_def)
  then show ?thesis by blast
qed

text \<open>
  Claim C10. Whenever one of the ten fields of a mapping is a list with an element that
  is not a string, the join of that list raises \<open>TypeError\<close> and \<open>create_pretty_excel\<close>
  raises: that \<open>TypeError\<close> when the columns before the field are written, and otherwise
  the error of an earlier column. Such inputs exist, so rendering is not total over
  list-valued inputs.
\<close>

theorem create_pretty_excel_raises_on_non_string_item:
  assumes "header \<in> set headers"
    and "map_of d header = Some (PyList items)"
    and "\<not> list_all is_str items"
  shows "(\<exists>msg. join_values '', '' items = Inl (TypeError msg))
     \<and> (\<exists>e. create_pretty_excel (PyDict d) = Inl e
            \<and> (e = IllegalCharacterError \<or> (\<exists>msg. e = TypeError msg)))
     \<and> (list_all (field_ok d) (takeWhile (\<lambda>k. k \<noteq> header) headers)
            \<longrightarrow> (\<exists>msg. create_pretty_excel (PyDict d) = Inl (TypeError msg)))"
proof -
  have "\<not> field_ok d header" using assms(2,3) by (simp add: field_ok_def)
  then have "\<not> renderable (PyDict d)" using assms(1) by (auto simp: list_all_iff)
  then have a: "\<exists>e. create_pretty_excel (PyDict d) = Inl e
            \<and> (e = IllegalCharacterError \<or> (\<exists>msg. e = TypeError msg))"
    by (rule create_pretty_excel_raises)
  have b: "\<exists>msg. join_values '', '' items = Inl (TypeError msg)"
    using assms(3) by (rule join_values_TypeError)
  have c: "list_all (field_ok d) (takeWhile (\<lambda>k. k \<noteq> header) headers)
            \<longrightarrow> (\<exists>msg. create_pretty_excel (PyDict d) = Inl (TypeError msg))"
    using create_pretty_excel_TypeError [OF assms] by blast
  show ?thesis using a b c by (intro conjI)
qed

theorem create_pretty_excel_raises_on_non_string_item_witness:
  "create_pretty_excel (PyDict [(''RenovationAreas'', PyList [PyStr ''Kitchen'', PyInt 3])])
     = Inl (TypeError ''sequence item 1: expected str instance, int found'')"
  using create_pretty_excel_raises_on_non_string_item
          [of "''RenovationAreas''" "[(''RenovationAreas'', PyList [PyStr ''Kitchen'', PyInt 3])]"
              "[PyStr ''Kitchen'', PyInt 3]"]
  by (simp add: create_pretty_excel_def Workbook_def headers_def Let_def
        get_column_letter_def details_get_def join_values_def new_cell_def
        check_string_def illegal_character_def str_of_nat.simps char_of_eq_iff)

text \<open>
  Claim C1, amended. Every record that \<open>extract_details_with_gpt\<close> produces is the
  decoded response as it is, or the fallback record (when the decoder raised
  \<open>JSONDecodeError\<close>), and the fallback record holds each of the ten keys with
  \<open>Not provided\<close>. A key absent from a decoded mapping therefore stays absent from the
  record; \<open>create_pretty_excel\<close> writes \<open>Not provided\<close> for it in row 2, for every mapping
  it renders.
\<close>

theorem extract_details_keys:
  "(\<forall>details shown. extract_details_with_gpt create loads t = Inr (details, shown) \<longrightarrow>
       (\<exists>content. create (completion_request (build_prompt t)) = Inr content
          \<and> (loads (strip content) = Inr details \<and> shown = []
               \<or> loads (strip content) = Inl JSONDecodeError \<and> details = fallback_details)))
   \<and> (\<forall>content v. create (completion_request (build_prompt t)) = Inr content
          \<and> loads (strip content) = Inr v
          \<longrightarrow> extract_details_with_gpt create loads t = Inr (v, []))
   \<and> list_all (\<lambda>k. details_get fallback_details k PyNone = Inr (PyStr ''Not provided'')) headers
   \<and> (\<forall>d i. renderable (PyDict d) \<and> i < length headers \<and> \<not> has_key (PyDict d) (headers ! i)
          \<longrightarrow> (\<exists>wb ws. create_pretty_excel (PyDict d) = Inr wb \<and> sheets wb = [ws]
                 \<and> map_option cell_value (cells ws (2, Suc i)) = Some ''Not provided''))"
proof -
  have a: "\<forall>details shown. extract_details_with_gpt create loads t = Inr (details, shown) \<longrightarrow>
       (\<exists>content. create (completion_request (build_prompt t)) = Inr content
          \<and> (loads (strip content) = Inr details \<and> shown = []
               \<or> loads (strip content) = Inl JSONDecodeError \<and> details = fallback_details))"
  proof (intro allI impI)
    fix details shown
    assume r: "extract_details_with_gpt create loads t = Inr (details, shown)"
    show "\<exists>content. create (completion_request (build_prompt t)) = Inr content
          \<and> (loads (strip content) = Inr details \<and> shown = []
               \<or> loads (strip content) = Inl JSONDecodeError \<and> details = fallback_details)"
    proof (cases "create (completion_request (build_prompt t))")
      case (Inl e)
      with r show ?thesis by (simp add: extract_details_with_gpt_def Let_def)
    next
      case (Inr content)
      show ?thesis
      proof (cases "loads (strip content)")
        case dec: (Inr v)
        with r Inr have "details = v \<and> shown = []"
          by (simp add: extract_details_with_gpt_def Let_def)
        with Inr dec show ?thesis by simp
      next
        case err: (Inl e)
        with r Inr have "e = JSONDecodeError \<and> details = fallback_details"
          by (cases e) (simp_all add: extract_details_with_gpt_def Let_def)
        with Inr err show ?thesis by simp
      qed
    qed
  qed
  have b: "\<forall>content v. create (completion_request (build_prompt t)) = Inr content
          \<and> loads (strip content) = Inr v
          \<longrightarrow> extract_details_with_gpt create loads t = Inr (v, [])"
    by (simp add: extract_details_with_gpt_def Let_def)
  have c: "list_all (\<lambda>k. details_get fallback_details k PyNone = Inr (PyStr ''Not provided'')) headers"
    by (simp add: headers_def fallback_details_def details_get_def)
  have e: "\<forall>d i. renderable (PyDict d) \<and> i < length headers \<and> \<not> has_key (PyDict d) (headers ! i)
            \<longrightarrow> (\<exists>wb ws. create_pretty_excel (PyDict d) = Inr wb \<and> sheets wb = [ws]
                   \<and> map_option cell_value (cells ws (2, Suc i)) = Some ''Not provided'')"
  proof (intro allI impI)
    fix d i
    assume h: "renderable (PyDict d) \<and> i < length headers \<and> \<not> has_key (PyDict d) (headers ! i)"
    then have n: "map_of d (headers ! i) = None" by simp
    obtain ws where r: "create_pretty_excel (PyDict d) = Inr \<lparr>sheets = [ws], active = 0\<rparr>"
      and v: "map_option cell_value (cells ws (2, Suc i))
                = Some (take 32767 (field_text d (headers ! i)))"
      using rendered_row2 [of d i] h by blast
    have "field_text d (headers ! i) = ''Not provided''" using n by (simp add: field_text_def)
    then have "take 32767 (field_text d (headers ! i)) = ''Not provided''" by simp
    then show "\<exists>wb ws. create_pretty_excel (PyDict d) = Inr wb \<and> sheets wb = [ws]
                   \<and> map_option cell_value (cells ws (2, Suc i)) = Some ''Not provided''"
      using r v by (intro exI [of _ "\<lparr>sheets = [ws], active = 0\<rparr>"] exI [of _ ws]) simp
  qed
  show ?thesis using a b c e by (intro conjI)
qed

lemma renderable_empty: "renderable (PyDict [])"
  by (simp add: headers_def field_ok_def field_text_def cell_text_ok_def
        illegal_character_def)

theorem extract_details_keys_witness:
  "extract_details_with_gpt (reply ''{}'') json_loads ''Client: Jane Doe, budget $50,000''
     = Inr (PyDict [], [])
   \<and> (\<exists>wb ws. create_pretty_excel (PyDict []) = Inr wb \<and> sheets wb = [ws]
         \<and> map_option cell_value (cells ws (2, 1)) = Some ''Not provided'')"
proof -
  have c: "reply ''{}'' (completion_request (build_prompt ''Client: Jane Doe, budget $50,000''))
             = Inr ''{}''"
    by (simp add: reply_def)
  note k = extract_details_keys [where create = "reply ''{}''" and loads = json_loads
      and t = "''Client: Jane Doe, budget $50,000''"]
  have "extract_details_with_gpt (reply ''{}'') json_loads ''Client: Jane Doe, budget $50,000''
     = Inr (PyDict [], [])"
    using k c json_loads_empty_object by blast
  moreover have "\<exists>wb ws. create_pretty_excel (PyDict []) = Inr wb \<and> sheets wb = [ws]
         \<and> map_option cell_value (cells ws (2, Suc 0)) = Some ''Not provided''"
  proof -
    have "renderable (PyDict []) \<and> 0 < length headers \<and> \<not> has_key (PyDict []) (headers ! 0)"
      using renderable_empty by (simp add: length_headers)
    then show ?thesis using k by blast
  qed
  ultimately show ?thesis by simp
qed

end
